theory Spec2Isabelle
  imports Main "HOL-Library.Word"
begin

unbundle bit_operations_syntax

section \<open>Data model of zyncoder.c\<close>

text \<open>
  The header \<open>zyncoder.h\<close> (struct declarations and the capacity macros) is not among the
  sources; the field types below are the ones the source file uses for the values it stores
  into them: \<open>uint8_t\<close> is \<open>8 word\<close>, \<open>unsigned int\<close> is \<open>32 word\<close>, \<open>unsigned long\<close>
  (the microsecond timestamps) is \<open>64 word\<close>. The capacities \<open>MAX_NUM_ZYNCODERS\<close> and
  \<open>MAX_NUM_ZYNSWITCHES\<close> are the lengths of the two statically sized arrays, which are lists
  here, so every theorem holds for any capacity.
\<close>

text \<open>Modelled from the spec: the macro \<open>ZYNCODER_TICKS_PER_RETENT\<close> is declared in the absent
  header \<open>zyncoder.h\<close>; the spec's velocity scenario fixes it to 4 electrical transitions per
  detent.\<close>
definition ZYNCODER_TICKS_PER_RETENT :: nat where
  "ZYNCODER_TICKS_PER_RETENT = 4"

text \<open>\<open>struct zyncoder_st\<close>. The field \<open>value\<close> is named \<open>zvalue\<close>. The fields
  \<open>pin_a_last_state\<close> and \<open>pin_b_last_state\<close> are used by the MCP23017 interrupt routine only,
  which is not modelled. \<open>enabled\<close> only ever holds 0 or 1 and is a truth value here.
  \<open>last_encoded\<close> only ever holds 0 or the \<open>uint8_t\<close> value \<open>encoded\<close>, and the \<open>uint8_t\<close>
  result \<open>sum\<close> of \<open>(last_encoded << 2) | encoded\<close> depends on its low eight bits only, so it is
  an \<open>8 word\<close>. \<open>osc_lo_addr\<close> is \<open>None\<close> for the null pointer and otherwise holds the port
  the address was created for.\<close>
record zyncoder_st =
  enabled :: bool
  pin_a :: "8 word"
  pin_b :: "8 word"
  midi_chan :: "8 word"
  midi_ctrl :: "8 word"
  osc_port :: "32 word"
  osc_lo_addr :: "32 word option"
  osc_path :: string
  max_value :: "32 word"
  step :: "32 word"
  subvalue :: "32 word"
  zvalue :: "32 word"
  last_encoded :: "8 word"
  tsus :: "64 word"
  dtus :: "32 word list"

datatype midi_event_type_enum =
  NONE_EVENT | CTRL_CHANGE | NOTE_ON | PROG_CHANGE | CVGATE_IN_EVENT | CVGATE_OUT_EVENT

record midi_event_st =
  ev_type :: midi_event_type_enum
  ev_chan :: "8 word"
  ev_num :: "8 word"
  ev_val :: "8 word"

text \<open>\<open>struct zynswitch_st\<close>; its fields carry the prefix \<open>sw_\<close> where the encoder record has a
  field of the same name.\<close>
record zynswitch_st =
  sw_enabled :: bool
  sw_pin :: "8 word"
  sw_tsus :: "64 word"
  sw_dtus :: "32 word"
  sw_status :: "8 word"
  midi_event :: midi_event_st
  last_cvgate_note :: int

text \<open>Everything the library does to the outside world, in the order it happens: calls into the
  MIDI router, OSC messages, the messages printed on standard output, and flushes of the serial
  device.\<close>
datatype osc_arg = Osc_T | Osc_F | Osc_i "32 word"

datatype effect =
  Printf_max_zyncoders
  | Printf_max_zynswitches
  | Printf_corrupt_uart
  | Internal_send_ccontrol_change "8 word" "8 word" "32 word"
  | Write_zynmidi_ccontrol_change "8 word" "8 word" "32 word"
  | Internal_send_note_on "8 word" "8 word" "8 word"
  | Write_zynmidi_note_on "8 word" "8 word" "8 word"
  | Internal_send_note_off "8 word" "8 word" "8 word"
  | Write_zynmidi_note_off "8 word" "8 word" "8 word"
  | Internal_send_program_change "8 word" "8 word"
  | Write_zynmidi_program_change "8 word" "8 word"
  | Lo_send "32 word" string osc_arg
  | Serial_flush

text \<open>The global arrays \<open>zyncoders\<close> and \<open>zynswitches\<close>, and the trace of effects.\<close>
record zynstate =
  zyncoders :: "zyncoder_st list"
  zynswitches :: "zynswitch_st list"
  effects :: "effect list"

definition MAX_NUM_ZYNCODERS :: "zynstate \<Rightarrow> nat" where
  "MAX_NUM_ZYNCODERS s = length (zyncoders s)"

definition MAX_NUM_ZYNSWITCHES :: "zynstate \<Rightarrow> nat" where
  "MAX_NUM_ZYNSWITCHES s = length (zynswitches s)"

definition emit :: "effect \<Rightarrow> zynstate \<Rightarrow> zynstate" where
  "emit e s = s\<lparr>effects := effects s @ [e]\<rparr>"

section \<open>Generic rotary encoders\<close>

text \<open>\<open>midi_event_zyncoders\<close>: the loop over \<open>j = 0 .. MAX_NUM_ZYNCODERS - 1\<close>.\<close>
definition midi_event_zyncoders :: "8 word \<Rightarrow> 8 word \<Rightarrow> 8 word \<Rightarrow> zynstate \<Rightarrow> zynstate" where
  "midi_event_zyncoders chan ctrl val s =
     s\<lparr>zyncoders :=
         fold (\<lambda>j zs.
                 if enabled (zs ! j) \<and> midi_chan (zs ! j) = chan \<and> midi_ctrl (zs ! j) = ctrl
                 then zs[j := (zs ! j)\<lparr>zvalue := ucast val,
                                       subvalue := ucast val * of_nat ZYNCODER_TICKS_PER_RETENT\<rparr>]
                 else zs)
              [0..<MAX_NUM_ZYNCODERS s] (zyncoders s)\<rparr>"

definition send_zyncoder :: "nat \<Rightarrow> zynstate \<Rightarrow> zynstate" where
  "send_zyncoder i s =
     (if i \<ge> MAX_NUM_ZYNCODERS s then s
      else let zyncoder = zyncoders s ! i in
        if \<not> enabled zyncoder then s
        else if midi_ctrl zyncoder > 0 then
          emit (Internal_send_ccontrol_change (midi_chan zyncoder) (midi_ctrl zyncoder)
                  (zvalue zyncoder)) s
        else (case osc_lo_addr zyncoder of
                None \<Rightarrow> s
              | Some addr \<Rightarrow>
                  if osc_path zyncoder = [] then s
                  else if step zyncoder \<ge> 8 then
                    (if zvalue zyncoder \<ge> 64
                     then emit (Lo_send addr (osc_path zyncoder) Osc_T) s
                     else emit (Lo_send addr (osc_path zyncoder) Osc_F) s)
                  else emit (Lo_send addr (osc_path zyncoder) (Osc_i (zvalue zyncoder))) s))"

definition get_value_zyncoder :: "nat \<Rightarrow> zynstate \<Rightarrow> 32 word" where
  "get_value_zyncoder i s =
     (if i \<ge> MAX_NUM_ZYNCODERS s then 0 else zvalue (zyncoders s ! i))"


text \<open>The average \<open>dtus_avg\<close> of the current interval and the ring of recent intervals,
  in \<open>unsigned int\<close> arithmetic.\<close>
definition dtus_avg_of :: "32 word \<Rightarrow> 32 word list \<Rightarrow> 32 word" where
  "dtus_avg_of dt ring = foldl (+) dt ring div (of_nat ZYNCODER_TICKS_PER_RETENT + 1)"

text \<open>The step \<open>dsval\<close> for a non-zero \<open>dtus_avg\<close>: the quotient is an unsigned division
  (the \<open>int\<close> numerator is converted), clamped to 1 and \<open>2*ZYNCODER_TICKS_PER_RETENT\<close>.\<close>
definition dsval_of :: "32 word \<Rightarrow> 32 word" where
  "dsval_of dtus_avg =
     (let q = (10000 * of_nat ZYNCODER_TICKS_PER_RETENT) div dtus_avg in
      if q < 1 then 1
      else if q > 2 * of_nat ZYNCODER_TICKS_PER_RETENT
      then 2 * of_nat ZYNCODER_TICKS_PER_RETENT else q)"

text \<open>Velocity mode: the new \<open>subvalue\<close>, and the local \<open>value\<close> (\<open>None\<close> for -1).\<close>
definition velocity_subvalue :: "8 word \<Rightarrow> 8 word \<Rightarrow> 32 word \<Rightarrow> zyncoder_st \<Rightarrow> 32 word" where
  "velocity_subvalue up down dsval zyncoder =
     (if up \<noteq> 0 then
        (if max_value zyncoder - subvalue zyncoder \<ge> dsval
         then subvalue zyncoder + dsval else max_value zyncoder)
      else if down \<noteq> 0 then
        (if subvalue zyncoder \<ge> dsval then subvalue zyncoder - dsval else 0)
      else subvalue zyncoder)"

definition velocity_value :: "8 word \<Rightarrow> 8 word \<Rightarrow> 32 word \<Rightarrow> 32 word option" where
  "velocity_value up down sub =
     (if up \<noteq> 0 then Some (sub div of_nat ZYNCODER_TICKS_PER_RETENT)
      else if down \<noteq> 0 then
        Some ((sub + of_nat ZYNCODER_TICKS_PER_RETENT - 1) div of_nat ZYNCODER_TICKS_PER_RETENT)
      else None)"

text \<open>Fixed-step mode: the new \<open>value\<close>.\<close>
definition fixed_step_value :: "8 word \<Rightarrow> 8 word \<Rightarrow> zyncoder_st \<Rightarrow> 32 word" where
  "fixed_step_value up down zyncoder =
     (let v0 = (if zvalue zyncoder > max_value zyncoder
                then max_value zyncoder else zvalue zyncoder)
      in if max_value zyncoder - v0 \<ge> step zyncoder \<and> up \<noteq> 0 then v0 + step zyncoder
         else if v0 \<ge> step zyncoder \<and> down \<noteq> 0 then v0 - step zyncoder
         else v0)"

text \<open>The interval \<open>unsigned int dtus = tsus - zyncoder->tsus\<close> since the last accepted tick:
  the difference of the two \<open>unsigned long\<close> readings, truncated to 32 bits.\<close>
definition tick_interval :: "64 word \<Rightarrow> zyncoder_st \<Rightarrow> 32 word" where
  "tick_interval now zyncoder = ucast (now - tsus zyncoder)"

text \<open>The part of \<open>update_zyncoder\<close> that all build variants share (from \<open>if (zyncoder->step==0)\<close>
  to the end), for an encoder index already checked and the flags \<open>up\<close> and \<open>down\<close> already
  computed. \<open>now\<close> is the microsecond reading \<open>ts.tv_sec*1000000 + ts.tv_nsec/1000\<close> of the
  monotonic clock. The result is \<open>None\<close> when the integer division by \<open>dtus_avg\<close> divides by
  zero, where the C program has no defined behaviour.\<close>
definition zyncoder_advance ::
    "nat \<Rightarrow> 8 word \<Rightarrow> 8 word \<Rightarrow> 64 word \<Rightarrow> zynstate \<Rightarrow> zynstate option" where
  "zyncoder_advance i up down now s =
     (let zyncoder = zyncoders s ! i in
      if step zyncoder = 0 then
        let dt = tick_interval now zyncoder in
        if dt < 1000 then Some s
        else
          let dtus_avg = dtus_avg_of dt (dtus zyncoder) in
          if dtus_avg = 0 then None
          else
            let sub = velocity_subvalue up down (dsval_of dtus_avg) zyncoder;
                z1 = zyncoder\<lparr>dtus := tl (dtus zyncoder) @ [dt], subvalue := sub, tsus := now\<rparr>
            in (case velocity_value up down sub of
                  None \<Rightarrow> Some (s\<lparr>zyncoders := (zyncoders s)[i := z1]\<rparr>)
                | Some v \<Rightarrow>
                    if zvalue zyncoder \<noteq> v
                    then Some (send_zyncoder i
                                 (s\<lparr>zyncoders := (zyncoders s)[i := z1\<lparr>zvalue := v\<rparr>]\<rparr>))
                    else Some (s\<lparr>zyncoders := (zyncoders s)[i := z1]\<rparr>))
      else
        let v1 = fixed_step_value up down zyncoder;
            s1 = s\<lparr>zyncoders := (zyncoders s)[i := zyncoder\<lparr>zvalue := v1\<rparr>]\<rparr>
        in if zvalue zyncoder \<noteq> v1 then Some (send_zyncoder i s1) else Some s1)"

text \<open>The quadrature classification of \<open>update_zyncoder\<close> in the builds without
  \<open>UART_ENCODERS\<close>: the flags \<open>up\<close> and \<open>down\<close> from \<open>sum\<close> (here \<open>qsum\<close>), as \<open>uint8_t\<close> values 0 or 1.\<close>
definition quadrature_up :: "8 word \<Rightarrow> 8 word" where
  "quadrature_up qsum = (if qsum = 0b1101 \<or> qsum = 0b0100 \<or> qsum = 0b0010 \<or> qsum = 0b1011
                        then 1 else 0)"

definition quadrature_down :: "8 word \<Rightarrow> 8 word" where
  "quadrature_down qsum =
     (if quadrature_up qsum = 0
      then (if qsum = 0b1110 \<or> qsum = 0b0111 \<or> qsum = 0b0001 \<or> qsum = 0b1000 then 1 else 0)
      else 0)"

text \<open>\<open>update_zyncoder(i, MSB, LSB)\<close>, the build for MCP23017 expanders. The \<open>MCP23008_ENCODERS\<close>
  build has the same body with \<open>MSB\<close> and \<open>LSB\<close> read by \<open>digitalRead\<close> from \<open>pin_a\<close> and
  \<open>pin_b\<close>.\<close>
definition update_zyncoder ::
    "nat \<Rightarrow> 8 word \<Rightarrow> 8 word \<Rightarrow> 64 word \<Rightarrow> zynstate \<Rightarrow> zynstate option" where
  "update_zyncoder i MSB LSB now s =
     (if i \<ge> MAX_NUM_ZYNCODERS s then Some s
      else let zyncoder = zyncoders s ! i in
        if \<not> enabled zyncoder then Some s
        else
          let encoded = push_bit 1 MSB OR LSB;
              qsum = push_bit 2 (last_encoded zyncoder) OR encoded;
              up = quadrature_up qsum;
              down = quadrature_down qsum
          in zyncoder_advance i up down now
               (s\<lparr>zyncoders := (zyncoders s)[i := zyncoder\<lparr>last_encoded := encoded\<rparr>]\<rparr>))"

text \<open>A payload pointer \<open>uint8_t* data\<close> is the function from an offset to the byte stored
  there; a pin number is a bit index into it.\<close>
definition payload_bit :: "(nat \<Rightarrow> 8 word) \<Rightarrow> 8 word \<Rightarrow> 8 word" where
  "payload_bit data pin = drop_bit (unat pin mod 8) (data (unat pin div 8)) AND 1"

text \<open>\<open>update_zyncoder(i, data)\<close>, the \<open>UART_ENCODERS\<close> build: the direction arrives decoded.\<close>
definition update_zyncoder_uart ::
    "nat \<Rightarrow> (nat \<Rightarrow> 8 word) \<Rightarrow> 64 word \<Rightarrow> zynstate \<Rightarrow> zynstate option" where
  "update_zyncoder_uart i data now s =
     (if i \<ge> MAX_NUM_ZYNCODERS s then Some s
      else let zyncoder = zyncoders s ! i in
        if \<not> enabled zyncoder then Some s
        else
          let down = payload_bit data (pin_a zyncoder);
              up = payload_bit data (pin_b zyncoder)
          in zyncoder_advance i up down now s)"

text \<open>What \<open>setup_zyncoder\<close> and \<open>setup_zynswitch\<close> return: the null pointer, or the address of
  entry \<open>i\<close> of the array. \<open>Writes_past_array\<close> stands for a call that stores through
  \<open>zyncoders + i\<close> with \<open>i\<close> outside the array, which has no defined behaviour.\<close>
datatype setup_outcome =
  Returns_NULL zynstate
  | Returns_entry nat zynstate
  | Writes_past_array

text \<open>The argument \<open>char *osc_path\<close> of \<open>setup_zyncoder\<close>, as the C library reads it: a null
  pointer, or a string \<open>port:path\<close> of which \<open>atoi\<close> reads the port from the first token and the
  second token is the path.\<close>
datatype osc_path_arg = Osc_path_NULL | Osc_path_tokens "32 word" string

text \<open>\<open>setup_zyncoder\<close>. The calls that configure the pins (\<open>pinMode\<close>, \<open>pullUpDnControl\<close>,
  \<open>wiringPiISR\<close>) do not touch the arrays and are left out.\<close>
definition setup_zyncoder ::
    "nat \<Rightarrow> 8 word \<Rightarrow> 8 word \<Rightarrow> 8 word \<Rightarrow> 8 word \<Rightarrow> osc_path_arg \<Rightarrow> 32 word \<Rightarrow> 32 word
       \<Rightarrow> 32 word \<Rightarrow> zynstate \<Rightarrow> setup_outcome" where
  "setup_zyncoder i a b chan ctrl osc v maxv stp s =
     (if i > MAX_NUM_ZYNCODERS s then Returns_NULL (emit Printf_max_zyncoders s)
      else if i \<ge> length (zyncoders s) then Writes_past_array
      else
        let zyncoder = zyncoders s ! i;
            chan1 = (if chan > 15 then 0 else chan);
            ctrl1 = (if ctrl > 127 then 1 else ctrl);
            z1 = zyncoder\<lparr>midi_chan := chan1, midi_ctrl := ctrl1\<rparr>;
            z2 = (case osc of
                    Osc_path_NULL \<Rightarrow> z1\<lparr>osc_path := []\<rparr>
                  | Osc_path_tokens port path \<Rightarrow>
                      if port > 0
                      then z1\<lparr>osc_port := port, osc_lo_addr := Some port, osc_path := path\<rparr>
                      else z1\<lparr>osc_port := port, osc_path := []\<rparr>);
            v1 = (if v > maxv then maxv else v);
            z3 = (if stp > 0
                  then z2\<lparr>step := stp, zvalue := v1, subvalue := 0, max_value := maxv\<rparr>
                  else z2\<lparr>step := stp, zvalue := v1,
                          subvalue := of_nat ZYNCODER_TICKS_PER_RETENT * v1,
                          max_value := of_nat ZYNCODER_TICKS_PER_RETENT * maxv\<rparr>);
            z4 = (if \<not> enabled z3 \<or> pin_a z3 \<noteq> a \<or> pin_b z3 \<noteq> b
                  then z3\<lparr>enabled := True, pin_a := a, pin_b := b, last_encoded := 0,
                          tsus := 0\<rparr>
                  else z3)
        in Returns_entry i (s\<lparr>zyncoders := (zyncoders s)[i := z4]\<rparr>))"

definition set_value_zyncoder :: "nat \<Rightarrow> 32 word \<Rightarrow> bool \<Rightarrow> zynstate \<Rightarrow> zynstate" where
  "set_value_zyncoder i v send s =
     (if i \<ge> MAX_NUM_ZYNCODERS s then s
      else let zyncoder = zyncoders s ! i in
        if \<not> enabled zyncoder then s
        else
          let z1 = (if step zyncoder = 0 then
                      let v4 = v * of_nat ZYNCODER_TICKS_PER_RETENT;
                          sub = (if v4 > max_value zyncoder then max_value zyncoder else v4)
                      in zyncoder\<lparr>subvalue := sub,
                                  zvalue := sub div of_nat ZYNCODER_TICKS_PER_RETENT\<rparr>
                    else if v > max_value zyncoder
                    then zyncoder\<lparr>zvalue := max_value zyncoder\<rparr>
                    else zyncoder\<lparr>zvalue := v\<rparr>);
              s1 = s\<lparr>zyncoders := (zyncoders s)[i := z1]\<rparr>
          in if send then send_zyncoder i s1 else s1)"


section \<open>Switches\<close>

definition upd_zynswitch :: "nat \<Rightarrow> (zynswitch_st \<Rightarrow> zynswitch_st) \<Rightarrow> zynstate \<Rightarrow> zynstate" where
  "upd_zynswitch i f s = s\<lparr>zynswitches := (zynswitches s)[i := f (zynswitches s ! i)]\<rparr>"

text \<open>\<open>send_zynswitch_midi\<close> for the switch at index \<open>i\<close>, in a build without
  \<open>ZYNAPTIK_CONFIG\<close> (no CV/gate branch).\<close>
definition send_zynswitch_midi :: "nat \<Rightarrow> 8 word \<Rightarrow> zynstate \<Rightarrow> zynstate" where
  "send_zynswitch_midi i status s =
     (let ev = midi_event (zynswitches s ! i) in
      if ev_type ev = CTRL_CHANGE then
        let val = (if status = 0 then ev_val ev else 0) in
        emit (Write_zynmidi_ccontrol_change (ev_chan ev) (ev_num ev) (ucast val))
          (midi_event_zyncoders (ev_chan ev) (ev_num ev) val
             (emit (Internal_send_ccontrol_change (ev_chan ev) (ev_num ev) (ucast val)) s))
      else if ev_type ev = NOTE_ON then
        (if status = 0 then
           emit (Write_zynmidi_note_on (ev_chan ev) (ev_num ev) (ev_val ev))
             (emit (Internal_send_note_on (ev_chan ev) (ev_num ev) (ev_val ev)) s)
         else
           emit (Write_zynmidi_note_off (ev_chan ev) (ev_num ev) 0)
             (emit (Internal_send_note_off (ev_chan ev) (ev_num ev) 0) s))
      else if ev_type ev = PROG_CHANGE then
        (if status = 0 then
           emit (Write_zynmidi_program_change (ev_chan ev) (ev_num ev))
             (emit (Internal_send_program_change (ev_chan ev) (ev_num ev)) s)
         else s)
      else s)"

text \<open>\<open>update_zynswitch(i, status)\<close>, the per-switch update called from the MCP23017 interrupt
  routine; the \<open>MCP23008_ENCODERS\<close> build reads \<open>status\<close> with \<open>digitalRead\<close> instead. A
  transition to level 1 is the release edge.\<close>
definition update_zynswitch :: "nat \<Rightarrow> 8 word \<Rightarrow> 64 word \<Rightarrow> zynstate \<Rightarrow> zynstate" where
  "update_zynswitch i status now s =
     (if i \<ge> MAX_NUM_ZYNSWITCHES s then s
      else let zynswitch = zynswitches s ! i in
        if \<not> sw_enabled zynswitch then s
        else if status = sw_status zynswitch then s
        else
          let s1 = send_zynswitch_midi i status
                     (upd_zynswitch i (\<lambda>w. w\<lparr>sw_status := status\<rparr>) s)
          in if status = 1 then
               (if sw_tsus zynswitch > 0 then
                  let dt = (ucast (now - sw_tsus zynswitch) :: 32 word);
                      s2 = upd_zynswitch i (\<lambda>w. w\<lparr>sw_tsus := 0\<rparr>) s1
                  in if dt < 1000 then s2
                     else upd_zynswitch i (\<lambda>w. w\<lparr>sw_dtus := dt\<rparr>) s2
                else s1)
             else upd_zynswitch i (\<lambda>w. w\<lparr>sw_tsus := now\<rparr>) s1)"

text \<open>A \<open>for\<close> loop whose body may \<open>return\<close> from the enclosing function.\<close>
datatype 'a loop_step = Continue 'a | Return 'a

fun run_loop :: "(nat \<Rightarrow> 'a \<Rightarrow> 'a loop_step) \<Rightarrow> nat list \<Rightarrow> 'a \<Rightarrow> 'a" where
  "run_loop body [] s = s"
| "run_loop body (i # is) s =
     (case body i s of Continue s' \<Rightarrow> run_loop body is s' | Return s' \<Rightarrow> s')"

text \<open>The loop body of \<open>update_zynswitches\<close> (build \<open>UART_ENCODERS\<close>): the level of switch \<open>i\<close>
  is a bit of the payload, and a transition to level 0 is the release edge.\<close>
definition update_zynswitches_body ::
    "(nat \<Rightarrow> 8 word) \<Rightarrow> 64 word \<Rightarrow> nat \<Rightarrow> zynstate \<Rightarrow> zynstate loop_step" where
  "update_zynswitches_body data now i s =
     (let zynswitch = zynswitches s ! i in
      if \<not> sw_enabled zynswitch then Continue s
      else
        let status = payload_bit data (sw_pin zynswitch) in
        if status = sw_status zynswitch then Continue s
        else
          let s1 = send_zynswitch_midi i status
                     (upd_zynswitch i (\<lambda>w. w\<lparr>sw_status := status\<rparr>) s)
          in if status = 0 then
               (if sw_tsus zynswitch > 0 then
                  let dt = (ucast (now - sw_tsus zynswitch) :: 32 word);
                      s2 = upd_zynswitch i (\<lambda>w. w\<lparr>sw_tsus := 0\<rparr>) s1
                  in if dt < 1000 then Return s2
                     else Continue (upd_zynswitch i (\<lambda>w. w\<lparr>sw_dtus := dt\<rparr>) s2)
                else Continue s1)
             else Continue (upd_zynswitch i (\<lambda>w. w\<lparr>sw_tsus := now\<rparr>) s1))"

definition update_zynswitches :: "(nat \<Rightarrow> 8 word) \<Rightarrow> 64 word \<Rightarrow> zynstate \<Rightarrow> zynstate" where
  "update_zynswitches data now s =
     run_loop (update_zynswitches_body data now) [0..<MAX_NUM_ZYNSWITCHES s] s"

text \<open>The loop body of \<open>update_expanded_zynswitches\<close> (build \<open>MCP23008_ENCODERS\<close>): only the
  switches on expander pins (100 and above) are polled, \<open>digitalRead\<close> gives the level of a pin,
  and a transition to level 1 is the release edge.\<close>
definition update_expanded_zynswitches_body ::
    "(8 word \<Rightarrow> 8 word) \<Rightarrow> 64 word \<Rightarrow> nat \<Rightarrow> zynstate \<Rightarrow> zynstate loop_step" where
  "update_expanded_zynswitches_body digitalRead now i s =
     (let zynswitch = zynswitches s ! i in
      if \<not> sw_enabled zynswitch \<or> sw_pin zynswitch < 100 then Continue s
      else
        let status = digitalRead (sw_pin zynswitch) in
        if status = sw_status zynswitch then Continue s
        else
          let s1 = send_zynswitch_midi i status
                     (upd_zynswitch i (\<lambda>w. w\<lparr>sw_status := status\<rparr>) s)
          in if status = 1 then
               (if sw_tsus zynswitch > 0 then
                  let dt = (ucast (now - sw_tsus zynswitch) :: 32 word);
                      s2 = upd_zynswitch i (\<lambda>w. w\<lparr>sw_tsus := 0\<rparr>) s1
                  in if dt < 1000 then Return s2
                     else Continue (upd_zynswitch i (\<lambda>w. w\<lparr>sw_dtus := dt\<rparr>) s2)
                else Continue s1)
             else Continue (upd_zynswitch i (\<lambda>w. w\<lparr>sw_tsus := now\<rparr>) s1))"

definition update_expanded_zynswitches ::
    "(8 word \<Rightarrow> 8 word) \<Rightarrow> 64 word \<Rightarrow> zynstate \<Rightarrow> zynstate" where
  "update_expanded_zynswitches digitalRead now s =
     run_loop (update_expanded_zynswitches_body digitalRead now) [0..<MAX_NUM_ZYNSWITCHES s] s"

text \<open>\<open>setup_zynswitch\<close> as compiled with \<open>UART_ENCODERS\<close>, where no pin is configured.\<close>
definition setup_zynswitch :: "nat \<Rightarrow> 8 word \<Rightarrow> zynstate \<Rightarrow> setup_outcome" where
  "setup_zynswitch i pin s =
     (if i \<ge> MAX_NUM_ZYNSWITCHES s then Returns_NULL (emit Printf_max_zynswitches s)
      else Returns_entry i
             (upd_zynswitch i
                (\<lambda>w. w\<lparr>sw_enabled := True, sw_pin := pin, sw_tsus := 0, sw_dtus := 0,
                        sw_status := 0\<rparr>) s))"

text \<open>\<open>setup_zynswitch_midi\<close> returns 0 or 1 together with the new state.\<close>
definition setup_zynswitch_midi ::
    "nat \<Rightarrow> midi_event_type_enum \<Rightarrow> 8 word \<Rightarrow> 8 word \<Rightarrow> 8 word \<Rightarrow> zynstate \<Rightarrow> int \<times> zynstate" where
  "setup_zynswitch_midi i evt chan num val s =
     (if i \<ge> MAX_NUM_ZYNSWITCHES s then (0, emit Printf_max_zynswitches s)
      else (1, upd_zynswitch i
                 (\<lambda>w. w\<lparr>midi_event := \<lparr>ev_type = evt, ev_chan = chan, ev_num = num,
                                         ev_val = val\<rparr>,
                         last_cvgate_note := -1\<rparr>) s))"

text \<open>\<open>get_zynswitch_dtus\<close> returns the duration together with the new state; \<open>now\<close> is the
  clock reading taken in the long-press branch.\<close>
definition get_zynswitch_dtus :: "nat \<Rightarrow> 32 word \<Rightarrow> 64 word \<Rightarrow> zynstate \<Rightarrow> 32 word \<times> zynstate" where
  "get_zynswitch_dtus i long_dtus now s =
     (if i \<ge> MAX_NUM_ZYNSWITCHES s then (0, s)
      else
        let d = sw_dtus (zynswitches s ! i) in
        if d > 0 then (d, upd_zynswitch i (\<lambda>w. w\<lparr>sw_dtus := 0\<rparr>) s)
        else if sw_tsus (zynswitches s ! i) > 0 then
          let d' = (ucast (now - sw_tsus (zynswitches s ! i)) :: 32 word) in
          if d' > long_dtus then (d', upd_zynswitch i (\<lambda>w. w\<lparr>sw_tsus := 0\<rparr>) s)
          else (0, s)
        else (0, s))"

section \<open>The serial transport\<close>

definition PAYLOAD_SIZE_BYTES :: nat where "PAYLOAD_SIZE_BYTES = 2"
definition BUFFER_SIZE_BYTES :: nat where "BUFFER_SIZE_BYTES = PAYLOAD_SIZE_BYTES + 2"
definition START_FRAME_VALUE :: "8 word" where "START_FRAME_VALUE = 0xEA"
definition END_FRAME_VALUE :: "8 word" where "END_FRAME_VALUE = 0xFB"

text \<open>The circular byte buffer and its four \<open>uint8_t\<close> cursors, which never leave the range
  0 to \<open>BUFFER_SIZE_BYTES\<close> and are natural numbers here.\<close>
record uart_st =
  buffer :: "8 word list"
  head :: nat
  prev_head :: nat
  tail :: nat
  elementsInBuffer :: nat

definition insertInBuffer :: "8 word \<Rightarrow> uart_st \<Rightarrow> uart_st" where
  "insertInBuffer element u =
     (let u1 = u\<lparr>prev_head := head u, buffer := (buffer u)[head u := element],
                 head := (if head u + 1 \<ge> BUFFER_SIZE_BYTES then 0 else head u + 1)\<rparr>
      in if elementsInBuffer u1 \<ge> BUFFER_SIZE_BYTES
         then u1\<lparr>tail := (if tail u1 + 1 \<ge> BUFFER_SIZE_BYTES then 0 else tail u1 + 1)\<rparr>
         else u1\<lparr>elementsInBuffer := elementsInBuffer u1 + 1\<rparr>)"

definition flushBuffer :: "uart_st \<Rightarrow> uart_st" where
  "flushBuffer u = u\<lparr>head := 0, prev_head := 0, tail := 0, elementsInBuffer := 0,
                     buffer := replicate BUFFER_SIZE_BYTES 0\<rparr>"

text \<open>\<open>getBufferData\<close>: \<open>None\<close> when it returns 1 (a reserved byte among the payload bytes),
  \<open>Some payload\<close> when it returns 0 with the payload copied out.\<close>
fun getBufferData_loop :: "uart_st \<Rightarrow> nat list \<Rightarrow> 8 word list \<Rightarrow> 8 word list option" where
  "getBufferData_loop u [] pBuffer = Some pBuffer"
| "getBufferData_loop u (cnt # cnts) pBuffer =
     (let k = (if head u + cnt + 1 \<ge> BUFFER_SIZE_BYTES
               then head u + cnt + 1 - BUFFER_SIZE_BYTES else head u + cnt + 1);
          b = buffer u ! k
      in if b = START_FRAME_VALUE \<or> b = END_FRAME_VALUE \<or> b = 0xFF then None
         else getBufferData_loop u cnts (pBuffer @ [b]))"

definition getBufferData :: "uart_st \<Rightarrow> 8 word list option" where
  "getBufferData u = getBufferData_loop u [0..<PAYLOAD_SIZE_BYTES] []"

text \<open>\<open>checkFraming\<close> returns its result together with the buffer and the state, to which the
  flush of the serial device is appended.\<close>
definition checkFraming ::
    "8 word \<Rightarrow> 8 word \<Rightarrow> uart_st \<times> zynstate \<Rightarrow> bool \<times> uart_st \<times> zynstate" where
  "checkFraming startByte endByte us =
     (case us of (u, s) \<Rightarrow>
        if buffer u ! tail u = startByte \<and> buffer u ! prev_head u = endByte
           \<and> elementsInBuffer u \<ge> BUFFER_SIZE_BYTES
        then (True, u, s)
        else if elementsInBuffer u \<ge> BUFFER_SIZE_BYTES
        then (False, flushBuffer u, emit Serial_flush s)
        else (False, u, s))"

text \<open>The array \<open>payload\<close> of \<open>uart_thread\<close> seen through a pointer: offsets 0 and 1 are the
  payload bytes, \<open>beyond\<close> is the memory behind the array, which a pin number above 15 reads.\<close>
definition payload_data :: "8 word list \<Rightarrow> (nat \<Rightarrow> 8 word) \<Rightarrow> nat \<Rightarrow> 8 word" where
  "payload_data payload beyond k = (if k < PAYLOAD_SIZE_BYTES then payload ! k else beyond k)"

text \<open>The loop over all encoders in \<open>uart_thread\<close>; \<open>clock i\<close> is the clock reading taken by the
  call for encoder \<open>i\<close>.\<close>
fun update_zyncoders_uart ::
    "nat list \<Rightarrow> (nat \<Rightarrow> 8 word) \<Rightarrow> (nat \<Rightarrow> 64 word) \<Rightarrow> zynstate \<Rightarrow> zynstate option" where
  "update_zyncoders_uart [] data clock s = Some s"
| "update_zyncoders_uart (i # is) data clock s =
     (case update_zyncoder_uart i data (clock i) s of
        None \<Rightarrow> None
      | Some s' \<Rightarrow> update_zyncoders_uart is data clock s')"

text \<open>One iteration of the \<open>while (1)\<close> loop of \<open>uart_thread\<close>, for the byte \<open>c\<close> that
  \<open>serialGetchar\<close> returned; \<open>now\<close> is the clock reading of \<open>update_zynswitches\<close>.\<close>
definition uart_thread_step ::
    "8 word \<Rightarrow> (nat \<Rightarrow> 8 word) \<Rightarrow> (nat \<Rightarrow> 64 word) \<Rightarrow> 64 word \<Rightarrow> uart_st \<times> zynstate
       \<Rightarrow> (uart_st \<times> zynstate) option" where
  "uart_thread_step c beyond clock now us =
     (case us of (u, s) \<Rightarrow>
        (case checkFraming START_FRAME_VALUE END_FRAME_VALUE (insertInBuffer c u, s) of
           (True, u1, s1) \<Rightarrow>
             (case getBufferData u1 of
                Some payload \<Rightarrow>
                  (case update_zyncoders_uart [0..<MAX_NUM_ZYNCODERS s1]
                          (payload_data payload beyond) clock s1 of
                     None \<Rightarrow> None
                   | Some s2 \<Rightarrow>
                       Some (flushBuffer u1,
                             update_zynswitches (payload_data payload beyond) now s2))
              | None \<Rightarrow> Some (u1, emit Printf_corrupt_uart s1))
         | (False, u1, s1) \<Rightarrow> Some (u1, s1)))"

section \<open>Initial and sample states\<close>

text \<open>The arrays after \<open>init_zyncoder\<close>: static storage starts zeroed, and \<open>init_zyncoder\<close>
  disables every entry, clears the interval rings and sets the switches' event type to
  \<open>NONE_EVENT\<close>.\<close>
definition zero_zyncoder :: zyncoder_st where
  "zero_zyncoder =
     \<lparr>enabled = False, pin_a = 0, pin_b = 0, midi_chan = 0, midi_ctrl = 0, osc_port = 0,
      osc_lo_addr = None, osc_path = [], max_value = 0, step = 0, subvalue = 0, zvalue = 0,
      last_encoded = 0, tsus = 0, dtus = replicate ZYNCODER_TICKS_PER_RETENT 0\<rparr>"

definition zero_zynswitch :: zynswitch_st where
  "zero_zynswitch =
     \<lparr>sw_enabled = False, sw_pin = 0, sw_tsus = 0, sw_dtus = 0, sw_status = 0,
      midi_event = \<lparr>ev_type = NONE_EVENT, ev_chan = 0, ev_num = 0, ev_val = 0\<rparr>,
      last_cvgate_note = 0\<rparr>"

definition init_zyncoder :: "nat \<Rightarrow> nat \<Rightarrow> zynstate" where
  "init_zyncoder n_zyncoders n_zynswitches =
     \<lparr>zyncoders = replicate n_zyncoders zero_zyncoder,
      zynswitches = replicate n_zynswitches zero_zynswitch,
      effects = []\<rparr>"

text \<open>A fixed-step encoder as \<open>setup_zyncoder(i, 0, 1, 0, 1, NULL, 5, 10, 1)\<close> leaves it, and a
  velocity-mode encoder as \<open>setup_zyncoder(i, 2, 3, 0, 7, NULL, 5, 10, 0)\<close> leaves it.\<close>
definition fixed_zyncoder :: zyncoder_st where
  "fixed_zyncoder =
     \<lparr>enabled = True, pin_a = 0, pin_b = 1, midi_chan = 0, midi_ctrl = 1, osc_port = 0,
      osc_lo_addr = None, osc_path = [], max_value = 10, step = 1, subvalue = 0, zvalue = 5,
      last_encoded = 0, tsus = 0, dtus = [0, 0, 0, 0]\<rparr>"

definition velocity_zyncoder :: zyncoder_st where
  "velocity_zyncoder =
     \<lparr>enabled = True, pin_a = 2, pin_b = 3, midi_chan = 0, midi_ctrl = 7, osc_port = 0,
      osc_lo_addr = None, osc_path = [], max_value = 40, step = 0, subvalue = 20, zvalue = 5,
      last_encoded = 0, tsus = 0, dtus = [0, 0, 0, 0]\<rparr>"

definition sample_state :: zynstate where
  "sample_state =
     \<lparr>zyncoders = [fixed_zyncoder, velocity_zyncoder],
      zynswitches = [zero_zynswitch, zero_zynswitch],
      effects = []\<rparr>"

text \<open>A coarse fixed-step encoder as \<open>setup_zyncoder(0, 0, 1, 0, 1, NULL, 0, 10, 3)\<close> leaves it.\<close>
definition coarse_zyncoder :: zyncoder_st where
  "coarse_zyncoder =
     \<lparr>enabled = True, pin_a = 0, pin_b = 1, midi_chan = 0, midi_ctrl = 1, osc_port = 0,
      osc_lo_addr = None, osc_path = [], max_value = 10, step = 3, subvalue = 0, zvalue = 0,
      last_encoded = 0, tsus = 0, dtus = [0, 0, 0, 0]\<rparr>"

definition coarse_state :: zynstate where
  "coarse_state = \<lparr>zyncoders = [coarse_zyncoder], zynswitches = [], effects = []\<rparr>"

section \<open>Runs of ticks\<close>

text \<open>A run of ticks of encoder \<open>i\<close> with the same flags \<open>up\<close> and \<open>down\<close>, one tick per clock
  reading; the run stops with \<open>None\<close> when a tick divides by zero.\<close>
fun zyncoder_ticks ::
    "nat \<Rightarrow> 8 word \<Rightarrow> 8 word \<Rightarrow> 64 word list \<Rightarrow> zynstate \<Rightarrow> zynstate option" where
  "zyncoder_ticks i up down [] s = Some s"
| "zyncoder_ticks i up down (now # later) s =
     (case zyncoder_advance i up down now s of
        None \<Rightarrow> None
      | Some s' \<Rightarrow> zyncoder_ticks i up down later s')"

text \<open>The clock readings of a run, each at least 1000 microseconds (as measured by the 32-bit
  interval) after the one before; \<open>prev\<close> is the stored \<open>tsus\<close>.\<close>
fun accepted_ticks :: "64 word \<Rightarrow> 64 word list \<Rightarrow> bool" where
  "accepted_ticks prev [] = True"
| "accepted_ticks prev (now # later) =
     (\<not> (ucast (now - prev) :: 32 word) < 1000 \<and> accepted_ticks now later)"

text \<open>A velocity-mode encoder as \<open>setup_zyncoder(0, 0, 1, 0, 1, NULL, 1, 2, 0)\<close> leaves it.\<close>
definition slow_zyncoder :: zyncoder_st where
  "slow_zyncoder =
     \<lparr>enabled = True, pin_a = 0, pin_b = 1, midi_chan = 0, midi_ctrl = 1, osc_port = 0,
      osc_lo_addr = None, osc_path = [], max_value = 8, step = 0, subvalue = 4, zvalue = 1,
      last_encoded = 0, tsus = 0, dtus = [0, 0, 0, 0]\<rparr>"

definition slow_state :: zynstate where
  "slow_state = \<lparr>zyncoders = [slow_zyncoder], zynswitches = [], effects = []\<rparr>"

section \<open>Reachable states and the configured bound\<close>

text \<open>The states reachable from \<open>init_zyncoder\<close> by calls of \<open>setup_zyncoder\<close>, encoder ticks,
  programmatic sets and inbound MIDI events. \<open>bound i\<close> records the \<open>max_value\<close> argument of the
  last \<open>setup_zyncoder\<close> call for encoder \<open>i\<close>: the configured bound. An inbound MIDI event is
  admitted when its value does not exceed the configured bound of the encoders it addresses.\<close>
inductive reachable :: "(nat \<Rightarrow> 32 word) \<Rightarrow> zynstate \<Rightarrow> bool" where
  reach_init: "reachable (\<lambda>i. 0) (init_zyncoder n_zyncoders n_zynswitches)"
| reach_setup:
    "reachable bound s
     \<Longrightarrow> setup_zyncoder i a b chan ctrl osc v maxv stp s = Returns_entry j s'
     \<Longrightarrow> reachable (bound(i := maxv)) s'"
| reach_setup_null:
    "reachable bound s
     \<Longrightarrow> setup_zyncoder i a b chan ctrl osc v maxv stp s = Returns_NULL s'
     \<Longrightarrow> reachable bound s'"
| reach_tick:
    "reachable bound s \<Longrightarrow> update_zyncoder i MSB LSB now s = Some s' \<Longrightarrow> reachable bound s'"
| reach_tick_uart:
    "reachable bound s \<Longrightarrow> update_zyncoder_uart i data now s = Some s' \<Longrightarrow> reachable bound s'"
| reach_set_value:
    "reachable bound s \<Longrightarrow> reachable bound (set_value_zyncoder i v send s)"
| reach_midi:
    "reachable bound s
     \<Longrightarrow> (\<forall>j < length (zyncoders s).
            enabled (zyncoders s ! j) \<and> midi_chan (zyncoders s ! j) = chan
              \<and> midi_ctrl (zyncoders s ! j) = ctrl \<longrightarrow> ucast val \<le> bound j)
     \<Longrightarrow> reachable bound (midi_event_zyncoders chan ctrl val s)"

text \<open>The invariant of one encoder with configured bound \<open>m\<close>. In velocity mode the stored
  \<open>max_value\<close> is \<open>ZYNCODER_TICKS_PER_RETENT * m\<close>; when that product does not fit in an
  \<open>unsigned int\<close>, \<open>m\<close> is above every value the division by \<open>ZYNCODER_TICKS_PER_RETENT\<close> can
  produce.\<close>
definition encoder_ok :: "32 word \<Rightarrow> zyncoder_st \<Rightarrow> bool" where
  "encoder_ok m z =
     (zvalue z \<le> m
      \<and> (if step z = 0
         then (unat m * ZYNCODER_TICKS_PER_RETENT < 2 ^ 32
                 \<and> max_value z = of_nat ZYNCODER_TICKS_PER_RETENT * m
                 \<and> subvalue z \<le> max_value z)
              \<or> 2 ^ 30 \<le> unat m
         else max_value z = m))"

definition bounds_ok :: "(nat \<Rightarrow> 32 word) \<Rightarrow> zynstate \<Rightarrow> bool" where
  "bounds_ok bound s =
     (\<forall>i < length (zyncoders s).
        enabled (zyncoders s ! i) \<longrightarrow> encoder_ok (bound i) (zyncoders s ! i))"

text \<open>The state after \<open>init_zyncoder\<close> with one encoder and
  \<open>setup_zyncoder(0, 0, 1, 0, 1, NULL, 5, 10, 1)\<close>.\<close>
definition fixed_state :: zynstate where
  "fixed_state = \<lparr>zyncoders = [fixed_zyncoder], zynswitches = [], effects = []\<rparr>"

section \<open>Sample switch states\<close>

text \<open>Two switches of the UART build after \<open>setup_zynswitch(0, 0)\<close>, \<open>setup_zynswitch(1, 3)\<close>
  and \<open>setup_zynswitch_midi\<close> with note-on events for the notes 60 and 62.\<close>
definition note_zynswitch :: "8 word \<Rightarrow> 8 word \<Rightarrow> zynswitch_st" where
  "note_zynswitch pin num =
     \<lparr>sw_enabled = True, sw_pin = pin, sw_tsus = 0, sw_dtus = 0, sw_status = 0,
      midi_event = \<lparr>ev_type = NOTE_ON, ev_chan = 0, ev_num = num, ev_val = 100\<rparr>,
      last_cvgate_note = -1\<rparr>"

definition released_state :: zynstate where
  "released_state =
     \<lparr>zyncoders = [], zynswitches = [note_zynswitch 0 60, note_zynswitch 3 62], effects = []\<rparr>"

text \<open>The payloads of the frames \<open>EA 01 00 FB\<close> (switch 0 at level 1) and \<open>EA 08 00 FB\<close>
  (switch 0 back at level 0, switch 1 at level 1).\<close>
definition frame_press :: "nat \<Rightarrow> 8 word" where
  "frame_press = payload_data [0x01, 0x00] (\<lambda>k. 0)"

definition frame_release :: "nat \<Rightarrow> 8 word" where
  "frame_release = payload_data [0x08, 0x00] (\<lambda>k. 0)"

text \<open>The state after the first frame, processed at clock reading 5000.\<close>
definition pressed_state :: zynstate where
  "pressed_state =
     \<lparr>zyncoders = [],
      zynswitches = [(note_zynswitch 0 60)\<lparr>sw_status := 1, sw_tsus := 5000\<rparr>,
                     note_zynswitch 3 62],
      effects = [Internal_send_note_off 0 60 0, Write_zynmidi_note_off 0 60 0]\<rparr>"

text \<open>Two switches on expander pins of the \<open>MCP23008_ENCODERS\<close> build, the first one pressed
  (level 0) at clock reading 5000.\<close>
definition expander_state :: zynstate where
  "expander_state =
     \<lparr>zyncoders = [],
      zynswitches = [(note_zynswitch 100 60)\<lparr>sw_tsus := 5000\<rparr>, note_zynswitch 101 62],
      effects = []\<rparr>"

section \<open>The circular buffer as a window of bytes\<close>

text \<open>The buffer states the code produces: four slots, cursors inside the buffer, and the write
  cursor \<open>head\<close> as many slots ahead of the read cursor \<open>tail\<close> as there are elements.\<close>
definition uart_wf :: "uart_st \<Rightarrow> bool" where
  "uart_wf u =
     (length (buffer u) = BUFFER_SIZE_BYTES \<and> head u < BUFFER_SIZE_BYTES
      \<and> tail u < BUFFER_SIZE_BYTES \<and> elementsInBuffer u \<le> BUFFER_SIZE_BYTES
      \<and> head u = (tail u + elementsInBuffer u) mod BUFFER_SIZE_BYTES)"

text \<open>The bytes held in the buffer, oldest first.\<close>
definition uart_window :: "uart_st \<Rightarrow> 8 word list" where
  "uart_window u =
     map (\<lambda>k. buffer u ! ((tail u + k) mod BUFFER_SIZE_BYTES)) [0..<elementsInBuffer u]"

definition reserved_byte :: "8 word \<Rightarrow> bool" where
  "reserved_byte b = (b = START_FRAME_VALUE \<or> b = END_FRAME_VALUE \<or> b = 0xFF)"

text \<open>The buffer after the bytes \<open>EA FF 00 FB\<close> arrived in an empty buffer.\<close>
definition empty_uart :: uart_st where
  "empty_uart = \<lparr>buffer = [0, 0, 0, 0], head = 0, prev_head = 0, tail = 0, elementsInBuffer = 0\<rparr>"

definition corrupt_uart :: uart_st where
  "corrupt_uart =
     \<lparr>buffer = [0xEA, 0xFF, 0x00, 0xFB], head = 0, prev_head = 3, tail = 0,
      elementsInBuffer = 4\<rparr>"

text \<open>The buffer after the bytes \<open>EA FF 00\<close> arrived in an empty buffer.\<close>
definition partial_uart :: uart_st where
  "partial_uart =
     \<lparr>buffer = [0xEA, 0xFF, 0x00, 0x00], head = 3, prev_head = 2, tail = 0,
      elementsInBuffer = 3\<rparr>"

text \<open>Consecutive iterations of the loop of \<open>uart_thread\<close>, one per received byte; \<open>clock k\<close>
  and \<open>now k\<close> are the clock readings of iteration \<open>k\<close>.\<close>
fun uart_thread_run ::
    "nat \<Rightarrow> 8 word list \<Rightarrow> (nat \<Rightarrow> 8 word) \<Rightarrow> (nat \<Rightarrow> nat \<Rightarrow> 64 word) \<Rightarrow> (nat \<Rightarrow> 64 word)
       \<Rightarrow> uart_st \<times> zynstate \<Rightarrow> (uart_st \<times> zynstate) option" where
  "uart_thread_run k [] beyond clock now us = Some us"
| "uart_thread_run k (c # cs) beyond clock now us =
     (case uart_thread_step c beyond (clock k) (now k) us of
        None \<Rightarrow> None
      | Some us' \<Rightarrow> uart_thread_run (Suc k) cs beyond clock now us')"

section \<open>Inbound MIDI\<close>

lemma fold_upd_index:
  "n \<le> length zs \<Longrightarrow>
   fold (\<lambda>j zs. if P (zs ! j) then zs[j := g (zs ! j)] else zs) [0..<n] zs
     = map (\<lambda>z. if P z then g z else z) (take n zs) @ drop n zs"
proof (induction n)
  case 0
  then show ?case by simp
next
  case (Suc n)
  then have n: "n < length zs" by simp
  let ?h = "\<lambda>z. if P z then g z else z"
  let ?xs = "map ?h (take n zs) @ drop n zs"
  have nth: "?xs ! n = zs ! n" using n by (simp add: nth_append)
  have upd: "?xs[n := y] = map ?h (take n zs) @ y # drop (Suc n) zs" for y
    using n by (simp add: list_update_append Cons_nth_drop_Suc [symmetric])
  have id: "?xs = map ?h (take n zs) @ zs ! n # drop (Suc n) zs"
    using n by (simp add: Cons_nth_drop_Suc)
  show ?case
    using Suc n nth upd id by (simp add: take_Suc_conv_app_nth)
qed

lemma midi_event_zyncoders_map:
  "midi_event_zyncoders chan ctrl val s =
     s\<lparr>zyncoders :=
         map (\<lambda>z. if enabled z \<and> midi_chan z = chan \<and> midi_ctrl z = ctrl
                  then z\<lparr>zvalue := ucast val,
                         subvalue := ucast val * of_nat ZYNCODER_TICKS_PER_RETENT\<rparr>
                  else z) (zyncoders s)\<rparr>"
  unfolding midi_event_zyncoders_def MAX_NUM_ZYNCODERS_def
  by (subst fold_upd_index) simp_all

text \<open>
  Claim C6. Round trip through inbound MIDI: when encoder \<open>i\<close> is enabled and bound to channel
  \<open>c\<close> and controller \<open>k\<close>, then after \<open>midi_event_zyncoders(c, k, v)\<close> the query
  \<open>get_value_zyncoder(i)\<close> returns exactly \<open>v\<close>, and the sub-tick accumulator holds
  \<open>v * ZYNCODER_TICKS_PER_RETENT\<close>. This holds for every byte \<open>v\<close>, in particular for every
  \<open>v \<le> max_value\<close>, and in both the velocity and the fixed-step mode.
\<close>
theorem midi_event_round_trip:
  assumes "i < MAX_NUM_ZYNCODERS s"
    and "enabled (zyncoders s ! i)"
    and "midi_chan (zyncoders s ! i) = c"
    and "midi_ctrl (zyncoders s ! i) = k"
  shows "get_value_zyncoder i (midi_event_zyncoders c k v s) = ucast v
       \<and> subvalue (zyncoders (midi_event_zyncoders c k v s) ! i)
           = ucast v * of_nat ZYNCODER_TICKS_PER_RETENT"
  using assms
  by (simp add: midi_event_zyncoders_map get_value_zyncoder_def MAX_NUM_ZYNCODERS_def)

theorem midi_event_round_trip_witness:
  "get_value_zyncoder 1 (midi_event_zyncoders 0 7 9 sample_state) = 9
   \<and> subvalue (zyncoders (midi_event_zyncoders 0 7 9 sample_state) ! 1) = 36"
proof -
  have "1 < MAX_NUM_ZYNCODERS sample_state"
    and "enabled (zyncoders sample_state ! 1)"
    and "midi_chan (zyncoders sample_state ! 1) = 0"
    and "midi_ctrl (zyncoders sample_state ! 1) = 7"
    by (simp_all add: sample_state_def velocity_zyncoder_def MAX_NUM_ZYNCODERS_def)
  from midi_event_round_trip [OF this, of 9]
  show ?thesis by (simp add: ZYNCODER_TICKS_PER_RETENT_def)
qed

text \<open>
  Claim C7. \<open>midi_event_zyncoders\<close> never emits: for all arguments the trace of effects (calls
  into the MIDI router, OSC messages, log lines) is the one it started with, the switch array
  is unchanged, and every encoder is unchanged except that an enabled encoder bound to the
  given channel and controller has its \<open>value\<close> and \<open>subvalue\<close> fields overwritten.
\<close>
theorem midi_event_zyncoders_frame:
  "effects (midi_event_zyncoders chan ctrl val s) = effects s
   \<and> zynswitches (midi_event_zyncoders chan ctrl val s) = zynswitches s
   \<and> length (zyncoders (midi_event_zyncoders chan ctrl val s)) = length (zyncoders s)
   \<and> (\<forall>j < length (zyncoders s).
        zyncoders (midi_event_zyncoders chan ctrl val s) ! j =
          (if enabled (zyncoders s ! j) \<and> midi_chan (zyncoders s ! j) = chan
              \<and> midi_ctrl (zyncoders s ! j) = ctrl
           then (zyncoders s ! j)\<lparr>zvalue := ucast val,
                   subvalue := ucast val * of_nat ZYNCODER_TICKS_PER_RETENT\<rparr>
           else zyncoders s ! j))"
  by (simp add: midi_event_zyncoders_map)

theorem midi_event_zyncoders_frame_witness:
  "effects (midi_event_zyncoders 0 7 9 sample_state) = []
   \<and> zynswitches (midi_event_zyncoders 0 7 9 sample_state) = [zero_zynswitch, zero_zynswitch]
   \<and> zyncoders (midi_event_zyncoders 0 7 9 sample_state) ! 0 = fixed_zyncoder
   \<and> zyncoders (midi_event_zyncoders 0 7 9 sample_state) ! 1
       = velocity_zyncoder\<lparr>zvalue := 9, subvalue := 36\<rparr>"
proof -
  have len: "(0::nat) < length (zyncoders sample_state)" "(1::nat) < length (zyncoders sample_state)"
    by (simp_all add: sample_state_def)
  note f = midi_event_zyncoders_frame [of 0 7 9 sample_state]
  from f have e: "effects (midi_event_zyncoders 0 7 9 sample_state) = effects sample_state"
    and w: "zynswitches (midi_event_zyncoders 0 7 9 sample_state) = zynswitches sample_state"
    and a: "\<forall>j < length (zyncoders sample_state).
        zyncoders (midi_event_zyncoders 0 7 9 sample_state) ! j =
          (if enabled (zyncoders sample_state ! j) \<and> midi_chan (zyncoders sample_state ! j) = 0
              \<and> midi_ctrl (zyncoders sample_state ! j) = 7
           then (zyncoders sample_state ! j)\<lparr>zvalue := ucast (9 :: 8 word),
                   subvalue := ucast (9 :: 8 word) * of_nat ZYNCODER_TICKS_PER_RETENT\<rparr>
           else zyncoders sample_state ! j)"
    by blast+
  from a len have
    "zyncoders (midi_event_zyncoders 0 7 9 sample_state) ! 0 = fixed_zyncoder"
    "zyncoders (midi_event_zyncoders 0 7 9 sample_state) ! 1
       = velocity_zyncoder\<lparr>zvalue := 9, subvalue := 36\<rparr>"
    by (simp_all add: sample_state_def fixed_zyncoder_def velocity_zyncoder_def
          ZYNCODER_TICKS_PER_RETENT_def)
  with e w show ?thesis by (simp add: sample_state_def)
qed

section \<open>Encoder ticks\<close>

lemma send_zyncoder_zyncoders [simp]: "zyncoders (send_zyncoder i s) = zyncoders s"
  by (simp add: send_zyncoder_def emit_def Let_def split: option.splits)

lemma send_zyncoder_zynswitches [simp]: "zynswitches (send_zyncoder i s) = zynswitches s"
  by (simp add: send_zyncoder_def emit_def Let_def split: option.splits)

lemma fixed_step_value_le: "fixed_step_value up down z \<le> max_value z"
  unfolding fixed_step_value_def Let_def by (simp split: if_splits) unat_arith

lemma fixed_step_value_noop:
  "fixed_step_value 0 0 z = (if zvalue z \<le> max_value z then zvalue z else max_value z)"
  by (auto simp: fixed_step_value_def)

lemma zyncoder_advance_fixed:
  assumes "step (zyncoders s ! i) \<noteq> 0"
  shows "\<exists>s'. zyncoder_advance i up down now s = Some s'
           \<and> zyncoders s' = (zyncoders s)[i := (zyncoders s ! i)\<lparr>zvalue :=
                 fixed_step_value up down (zyncoders s ! i)\<rparr>]
           \<and> zynswitches s' = zynswitches s"
  using assms by (simp add: zyncoder_advance_def Let_def)

lemma zyncoder_advance_debounced:
  assumes "step (zyncoders s ! i) = 0"
    and "tick_interval now (zyncoders s ! i) < 1000"
  shows "zyncoder_advance i up down now s = Some s"
  using assms by (simp add: zyncoder_advance_def Let_def)

lemma zyncoder_advance_velocity:
  assumes "step (zyncoders s ! i) = 0"
    and "\<not> tick_interval now (zyncoders s ! i) < 1000"
    and "zyncoder_advance i up down now s = Some s'"
    and "dt = tick_interval now (zyncoders s ! i)"
    and "sub = velocity_subvalue up down (dsval_of (dtus_avg_of dt (dtus (zyncoders s ! i))))
                 (zyncoders s ! i)"
  shows "dtus_avg_of dt (dtus (zyncoders s ! i)) \<noteq> 0
       \<and> zyncoders s' = (zyncoders s)[i := (zyncoders s ! i)
             \<lparr>dtus := tl (dtus (zyncoders s ! i)) @ [dt], subvalue := sub, tsus := now,
              zvalue := (case velocity_value up down sub of
                           None \<Rightarrow> zvalue (zyncoders s ! i) | Some v \<Rightarrow> v)\<rparr>]
       \<and> zynswitches s' = zynswitches s"
proof -
  let ?z = "zyncoders s ! i"
  from assms have nz: "dtus_avg_of dt (dtus ?z) \<noteq> 0"
    by (simp add: zyncoder_advance_def Let_def split: if_splits)
  show ?thesis
  proof (cases "velocity_value up down sub")
    case None
    with assms nz show ?thesis by (auto simp add: zyncoder_advance_def Let_def)
  next
    case (Some v)
    show ?thesis
    proof (cases "zvalue ?z = v")
      case True
      have "?z\<lparr>dtus := tl (dtus ?z) @ [dt], subvalue := sub, tsus := now, zvalue := v\<rparr>
            = ?z\<lparr>dtus := tl (dtus ?z) @ [dt], subvalue := sub, tsus := now\<rparr>"
        using True by simp
      with True Some assms nz show ?thesis by (auto simp add: zyncoder_advance_def Let_def)
    next
      case False
      with Some assms nz show ?thesis by (auto simp add: zyncoder_advance_def Let_def)
    qed
  qed
qed

lemma zyncoder_advance_entry:
  assumes a: "zyncoder_advance i up down now s = Some s'" and l: "i < length (zyncoders s)"
  shows "\<exists>z'. zyncoders s' = (zyncoders s)[i := z']
           \<and> zynswitches s' = zynswitches s
           \<and> enabled z' = enabled (zyncoders s ! i)
           \<and> last_encoded z' = last_encoded (zyncoders s ! i)
           \<and> step z' = step (zyncoders s ! i)
           \<and> max_value z' = max_value (zyncoders s ! i)
           \<and> (step z' \<noteq> 0 \<longrightarrow> zvalue z' \<le> max_value z')"
proof (cases "step (zyncoders s ! i) = 0")
  case True
  show ?thesis
  proof (cases "tick_interval now (zyncoders s ! i) < 1000")
    case d: True
    from zyncoder_advance_debounced [OF True d] a have "s' = s" by simp
    then show ?thesis using True by (intro exI [of _ "zyncoders s ! i"]) simp
  next
    case d: False
    from zyncoder_advance_velocity [OF True d a refl refl] True
    show ?thesis by (intro exI [of _ "zyncoders s' ! i"]) (simp add: l)
  qed
next
  case False
  from zyncoder_advance_fixed [OF False, of up down now] a False
  show ?thesis
    by (intro exI [of _ "zyncoders s' ! i"]) (auto simp: l fixed_step_value_le)
qed


lemma zyncoder_advance_noop:
  assumes a: "zyncoder_advance i 0 0 now s = Some s'" and l: "i < length (zyncoders s)"
  shows "subvalue (zyncoders s' ! i) = subvalue (zyncoders s ! i)
       \<and> zvalue (zyncoders s' ! i) =
            (if step (zyncoders s ! i) = 0 \<or> zvalue (zyncoders s ! i) \<le> max_value (zyncoders s ! i)
             then zvalue (zyncoders s ! i) else max_value (zyncoders s ! i))"
proof (cases "step (zyncoders s ! i) = 0")
  case True
  show ?thesis
  proof (cases "tick_interval now (zyncoders s ! i) < 1000")
    case d: True
    from zyncoder_advance_debounced [OF True d] a have "s' = s" by simp
    then show ?thesis using True by simp
  next
    case d: False
    from zyncoder_advance_velocity [OF True d a refl refl] True l
    show ?thesis by (simp add: velocity_value_def velocity_subvalue_def)
  qed
next
  case False
  from zyncoder_advance_fixed [OF False, of 0 0 now] a False l
  show ?thesis by (auto simp: fixed_step_value_noop)
qed

section \<open>Quadrature decoding\<close>

lemma repeated_pair_not_up:
  "quadrature_up (push_bit 2 (e :: 8 word) OR e) = 0"
proof -
  let ?x = "push_bit 2 e OR e"
  have b: "bit ?x n \<longleftrightarrow> (n < 8 \<and> 2 \<le> n \<and> bit e (n - 2)) \<or> bit e n" for n
    by (auto simp: bit_or_iff bit_push_bit_iff dest: bit_imp_le_length)
  have "?x \<noteq> 13"
  proof
    assume h: "?x = 13"
    have "bit ?x 3" "\<not> bit ?x 1" "\<not> bit ?x 5" by (simp_all only: h) simp_all
    then show False using b[of 3] b[of 1] b[of 5] by simp
  qed
  moreover have "?x \<noteq> 4"
  proof
    assume h: "?x = 4"
    have "bit ?x 2" "\<not> bit ?x 0" "\<not> bit ?x 4" by (simp_all only: h) simp_all
    then show False using b[of 2] b[of 0] b[of 4] by simp
  qed
  moreover have "?x \<noteq> 2"
  proof
    assume h: "?x = 2"
    have "bit ?x 1" "\<not> bit ?x 3" by (simp_all only: h) simp_all
    then show False using b[of 3] b[of 1]  by simp
  qed
  moreover have "?x \<noteq> 11"
  proof
    assume h: "?x = 11"
    have "bit ?x 0" "\<not> bit ?x 2" by (simp_all only: h) simp_all
    then show False using b[of 0] b[of 2]  by simp
  qed
  ultimately show ?thesis by (simp add: quadrature_up_def)
qed

lemma repeated_pair_not_down:
  "quadrature_down (push_bit 2 (e :: 8 word) OR e) = 0"
proof -
  let ?x = "push_bit 2 e OR e"
  have b: "bit ?x n \<longleftrightarrow> (n < 8 \<and> 2 \<le> n \<and> bit e (n - 2)) \<or> bit e n" for n
    by (auto simp: bit_or_iff bit_push_bit_iff dest: bit_imp_le_length)
  have "?x \<noteq> 14"
  proof
    assume h: "?x = 14"
    have "bit ?x 2" "\<not> bit ?x 0" "\<not> bit ?x 4" by (simp_all only: h) simp_all
    then show False using b[of 2] b[of 0] b[of 4] by simp
  qed
  moreover have "?x \<noteq> 7"
  proof
    assume h: "?x = 7"
    have "bit ?x 1" "\<not> bit ?x 3" by (simp_all only: h) simp_all
    then show False using b[of 3] b[of 1]  by simp
  qed
  moreover have "?x \<noteq> 1"
  proof
    assume h: "?x = 1"
    have "bit ?x 0" "\<not> bit ?x 2" by (simp_all only: h) simp_all
    then show False using b[of 0] b[of 2]  by simp
  qed
  moreover have "?x \<noteq> 8"
  proof
    assume h: "?x = 8"
    have "bit ?x 3" "\<not> bit ?x 1" "\<not> bit ?x 5" by (simp_all only: h) simp_all
    then show False using b[of 3] b[of 1] b[of 5] by simp
  qed
  ultimately show ?thesis by (simp add: quadrature_down_def)
qed

lemma quadrature_up_set:
  "quadrature_up q = (if q \<in> {0b1101, 0b0100, 0b0010, 0b1011} then 1 else 0)"
  by (simp add: quadrature_up_def)

lemma quadrature_down_set:
  "quadrature_down q = (if q \<in> {0b1110, 0b0111, 0b0001, 0b1000} then 1 else 0)"
  by (auto simp: quadrature_down_def quadrature_up_def)

lemma update_zyncoder_eq:
  assumes "i < MAX_NUM_ZYNCODERS s" and "enabled (zyncoders s ! i)"
  shows "update_zyncoder i MSB LSB now s =
           zyncoder_advance i
             (quadrature_up (push_bit 2 (last_encoded (zyncoders s ! i)) OR (push_bit 1 MSB OR LSB)))
             (quadrature_down (push_bit 2 (last_encoded (zyncoders s ! i)) OR (push_bit 1 MSB OR LSB)))
             now
             (s\<lparr>zyncoders := (zyncoders s)[i := (zyncoders s ! i)\<lparr>last_encoded := push_bit 1 MSB OR LSB\<rparr>]\<rparr>)"
  using assms by (simp add: update_zyncoder_def Let_def)

lemma update_zyncoder_entry:
  assumes u: "update_zyncoder i MSB LSB now s = Some s'"
    and i: "i < MAX_NUM_ZYNCODERS s" and en: "enabled (zyncoders s ! i)"
  shows "i < MAX_NUM_ZYNCODERS s' \<and> enabled (zyncoders s' ! i)
       \<and> last_encoded (zyncoders s' ! i) = push_bit 1 MSB OR LSB
       \<and> (step (zyncoders s' ! i) \<noteq> 0 \<longrightarrow> zvalue (zyncoders s' ! i) \<le> max_value (zyncoders s' ! i))"
proof -
  let ?s1 = "s\<lparr>zyncoders := (zyncoders s)[i := (zyncoders s ! i)\<lparr>last_encoded := push_bit 1 MSB OR LSB\<rparr>]\<rparr>"
  from u i en obtain up down where a: "zyncoder_advance i up down now ?s1 = Some s'"
    by (simp add: update_zyncoder_eq)
  have l: "i < length (zyncoders ?s1)" using i by (simp add: MAX_NUM_ZYNCODERS_def)
  from zyncoder_advance_entry [OF a l] l en show ?thesis
    by (auto simp: MAX_NUM_ZYNCODERS_def)
qed

lemma update_zyncoder_repeat:
  assumes u': "update_zyncoder i MSB LSB now' s' = Some s''"
    and i': "i < MAX_NUM_ZYNCODERS s'" and en': "enabled (zyncoders s' ! i)"
    and le': "last_encoded (zyncoders s' ! i) = push_bit 1 MSB OR LSB"
  shows "zyncoder_advance i 0 0 now' s' = Some s''"
proof -
  have "(zyncoders s')[i := (zyncoders s' ! i)\<lparr>last_encoded := push_bit 1 MSB OR LSB\<rparr>] = zyncoders s'"
    by (subst le' [symmetric]) simp
  then have same: "s'\<lparr>zyncoders := (zyncoders s')[i := (zyncoders s' ! i)\<lparr>last_encoded := push_bit 1 MSB OR LSB\<rparr>]\<rparr> = s'"
    by simp
  have "update_zyncoder i MSB LSB now' s' = zyncoder_advance i 0 0 now' s'"
    by (simp only: update_zyncoder_eq [OF i' en'] le' repeated_pair_not_up repeated_pair_not_down same)
  with u' show ?thesis by simp
qed


lemma zyncoder_advance_neither:
  assumes z: "z = zyncoders s ! i"
  shows "zyncoder_advance i 0 0 now s =
           (if step z = 0 then
              (if tick_interval now z < 1000 then Some s
               else if dtus_avg_of (tick_interval now z) (dtus z) = 0 then None
               else Some (s\<lparr>zyncoders := (zyncoders s)
                            [i := z\<lparr>dtus := tl (dtus z) @ [tick_interval now z], tsus := now\<rparr>]\<rparr>))
            else if zvalue z \<le> max_value z then Some s
            else Some (send_zyncoder i
                         (s\<lparr>zyncoders := (zyncoders s)[i := z\<lparr>zvalue := max_value z\<rparr>]\<rparr>)))"
proof (cases "step z = 0")
  case True
  have v: "velocity_value 0 0 x = None" "velocity_subvalue 0 0 d z = subvalue z" for x d
    by (simp_all add: velocity_value_def velocity_subvalue_def)
  have r: "z\<lparr>dtus := a, subvalue := subvalue z, tsus := b\<rparr> = z\<lparr>dtus := a, tsus := b\<rparr>" for a b
    by simp
  from True show ?thesis
    by (simp add: zyncoder_advance_def Let_def z [symmetric] v r)
next
  case False
  show ?thesis
  proof (cases "zvalue z \<le> max_value z")
    case True
    then have f: "fixed_step_value 0 0 z = zvalue z" by (simp add: fixed_step_value_noop)
    have "s\<lparr>zyncoders := (zyncoders s)[i := z\<lparr>zvalue := zvalue z\<rparr>]\<rparr> = s"
      by (simp add: z)
    with False True show ?thesis
      by (simp add: zyncoder_advance_def Let_def z [symmetric] f)
  next
    case gt: False
    then have f: "fixed_step_value 0 0 z = max_value z" by (simp add: fixed_step_value_noop)
    from gt have ne: "zvalue z \<noteq> max_value z" by auto
    from False gt ne show ?thesis
      by (simp add: zyncoder_advance_def Let_def z [symmetric] f)
  qed
qed

lemma zyncoder_advance_neither_effects:
  assumes a: "zyncoder_advance i 0 0 now s = Some s'"
    and b: "step (zyncoders s ! i) \<noteq> 0 \<longrightarrow> zvalue (zyncoders s ! i) \<le> max_value (zyncoders s ! i)"
  shows "effects s' = effects s"
  using a b by (auto simp: zyncoder_advance_neither [OF refl] split: if_splits)

lemma update_zyncoder_neither:
  assumes i: "i < MAX_NUM_ZYNCODERS s" and z: "z = zyncoders s ! i"
    and s1: "s1 = s\<lparr>zyncoders := (zyncoders s)[i := z\<lparr>last_encoded := encoded\<rparr>]\<rparr>"
  shows "zyncoder_advance i 0 0 now s1 =
           (if step z = 0 then
              (if tick_interval now z < 1000 then Some s1
               else if dtus_avg_of (tick_interval now z) (dtus z) = 0 then None
               else Some (s\<lparr>zyncoders := (zyncoders s)
                            [i := z\<lparr>last_encoded := encoded,
                                    dtus := tl (dtus z) @ [tick_interval now z], tsus := now\<rparr>]\<rparr>))
            else if zvalue z \<le> max_value z then Some s1
            else Some (send_zyncoder i
                         (s\<lparr>zyncoders := (zyncoders s)
                              [i := z\<lparr>last_encoded := encoded, zvalue := max_value z\<rparr>]\<rparr>)))"
proof -
  have z1: "z\<lparr>last_encoded := encoded\<rparr> = zyncoders s1 ! i"
    using i by (simp add: s1 MAX_NUM_ZYNCODERS_def)
  have t: "tick_interval now (z\<lparr>last_encoded := encoded\<rparr>) = tick_interval now z"
    by (simp add: tick_interval_def)
  have u: "s1\<lparr>zyncoders := (zyncoders s1)[i := w]\<rparr> = s\<lparr>zyncoders := (zyncoders s)[i := w]\<rparr>" for w
    by (simp add: s1)
  show ?thesis
    unfolding zyncoder_advance_neither [OF z1] t u by simp
qed

text \<open>
  Claim C2, as the code has it. Quadrature classification in \<open>update_zyncoder\<close>. With
  \<open>sum = (last_encoded << 2) | encoded\<close> (here \<open>qsum\<close>), the tick of an enabled encoder is
  processed as Up (flag \<open>up = 1\<close>, \<open>down = 0\<close>) exactly when \<open>sum\<close> is one of 0b1101, 0b0100,
  0b0010, 0b1011, as Down (\<open>up = 0\<close>, \<open>down = 1\<close>) exactly when it is one of 0b1110, 0b0111,
  0b0001, 0b1000, and with neither flag for every other value. A tick with neither flag does
  not step the value, but it is a no-op only in part, and its whole result is this. In
  velocity mode a tick less than 1000 us after the last accepted one changes \<open>last_encoded\<close>
  alone; a later one also stores the clock reading in \<open>tsus\<close> and shifts the interval into
  the \<open>dtus\<close> ring, emits nothing, and has no defined result when the averaged interval is 0.
  In fixed-step mode a \<open>value\<close> within \<open>max_value\<close> is kept and \<open>last_encoded\<close> alone
  changes; a \<open>value\<close> above \<open>max_value\<close> is replaced by \<open>max_value\<close> and that change is
  emitted by \<open>send_zyncoder\<close>. After every tick that returns, \<open>last_encoded\<close> is \<open>encoded\<close>.
  Feeding the same pair a second time right away leaves \<open>value\<close>, \<open>subvalue\<close> and
  \<open>last_encoded\<close> as the first call left them and emits nothing, so the two calls produce at
  most one value change.
\<close>
theorem update_zyncoder_quadrature:
  assumes i: "i < MAX_NUM_ZYNCODERS s" and z: "z = zyncoders s ! i" and en: "enabled z"
    and enc: "encoded = push_bit 1 MSB OR LSB"
    and qs: "qsum = push_bit 2 (last_encoded z) OR encoded"
    and s1: "s1 = s\<lparr>zyncoders := (zyncoders s)[i := z\<lparr>last_encoded := encoded\<rparr>]\<rparr>"
  shows "update_zyncoder i MSB LSB now s =
           zyncoder_advance i
             (if qsum \<in> {0b1101, 0b0100, 0b0010, 0b1011} then 1 else 0)
             (if qsum \<in> {0b1110, 0b0111, 0b0001, 0b1000} then 1 else 0) now s1
       \<and> (qsum \<notin> {0b1101, 0b0100, 0b0010, 0b1011} \<and> qsum \<notin> {0b1110, 0b0111, 0b0001, 0b1000} \<longrightarrow>
            update_zyncoder i MSB LSB now s =
              (if step z = 0 then
                 (if tick_interval now z < 1000 then Some s1
                  else if dtus_avg_of (tick_interval now z) (dtus z) = 0 then None
                  else Some (s\<lparr>zyncoders := (zyncoders s)
                               [i := z\<lparr>last_encoded := encoded,
                                       dtus := tl (dtus z) @ [tick_interval now z],
                                       tsus := now\<rparr>]\<rparr>))
               else if zvalue z \<le> max_value z then Some s1
               else Some (send_zyncoder i
                            (s\<lparr>zyncoders := (zyncoders s)
                                 [i := z\<lparr>last_encoded := encoded, zvalue := max_value z\<rparr>]\<rparr>))))
       \<and> (\<forall>s'. update_zyncoder i MSB LSB now s = Some s' \<longrightarrow>
             last_encoded (zyncoders s' ! i) = encoded
           \<and> (\<forall>now' s''. update_zyncoder i MSB LSB now' s' = Some s'' \<longrightarrow>
                zvalue (zyncoders s'' ! i) = zvalue (zyncoders s' ! i)
              \<and> subvalue (zyncoders s'' ! i) = subvalue (zyncoders s' ! i)
              \<and> last_encoded (zyncoders s'' ! i) = encoded
              \<and> effects s'' = effects s'))"
proof -
  have en0: "enabled (zyncoders s ! i)" using en z by simp
  have eq: "update_zyncoder i MSB LSB now s =
           zyncoder_advance i
             (if qsum \<in> {0b1101, 0b0100, 0b0010, 0b1011} then 1 else 0)
             (if qsum \<in> {0b1110, 0b0111, 0b0001, 0b1000} then 1 else 0) now s1"
    by (simp only: update_zyncoder_eq [OF i en0] enc qs s1 z quadrature_up_set quadrature_down_set)
  have neither: "update_zyncoder i MSB LSB now s =
              (if step z = 0 then
                 (if tick_interval now z < 1000 then Some s1
                  else if dtus_avg_of (tick_interval now z) (dtus z) = 0 then None
                  else Some (s\<lparr>zyncoders := (zyncoders s)
                               [i := z\<lparr>last_encoded := encoded,
                                       dtus := tl (dtus z) @ [tick_interval now z],
                                       tsus := now\<rparr>]\<rparr>))
               else if zvalue z \<le> max_value z then Some s1
               else Some (send_zyncoder i
                            (s\<lparr>zyncoders := (zyncoders s)
                                 [i := z\<lparr>last_encoded := encoded, zvalue := max_value z\<rparr>]\<rparr>)))"
    if n: "qsum \<notin> {0b1101, 0b0100, 0b0010, 0b1011} \<and> qsum \<notin> {0b1110, 0b0111, 0b0001, 0b1000}"
  proof -
    from eq n have "update_zyncoder i MSB LSB now s = zyncoder_advance i 0 0 now s1" by simp
    then show ?thesis by (simp only: update_zyncoder_neither [OF i z s1])
  qed
  have rest: "last_encoded (zyncoders s' ! i) = encoded
           \<and> (\<forall>now' s''. update_zyncoder i MSB LSB now' s' = Some s'' \<longrightarrow>
                zvalue (zyncoders s'' ! i) = zvalue (zyncoders s' ! i)
              \<and> subvalue (zyncoders s'' ! i) = subvalue (zyncoders s' ! i)
              \<and> last_encoded (zyncoders s'' ! i) = encoded
              \<and> effects s'' = effects s')"
    if u: "update_zyncoder i MSB LSB now s = Some s'" for s'
  proof -
    note e = update_zyncoder_entry [OF u i en0]
    from e have i': "i < MAX_NUM_ZYNCODERS s'" and en': "enabled (zyncoders s' ! i)"
      and le': "last_encoded (zyncoders s' ! i) = push_bit 1 MSB OR LSB"
      and b': "step (zyncoders s' ! i) \<noteq> 0 \<longrightarrow> zvalue (zyncoders s' ! i) \<le> max_value (zyncoders s' ! i)"
      by blast+
    have c1: "last_encoded (zyncoders s' ! i) = encoded" using le' enc by simp
    have c3: "zvalue (zyncoders s'' ! i) = zvalue (zyncoders s' ! i)
              \<and> subvalue (zyncoders s'' ! i) = subvalue (zyncoders s' ! i)
              \<and> last_encoded (zyncoders s'' ! i) = encoded
              \<and> effects s'' = effects s'"
      if u': "update_zyncoder i MSB LSB now' s' = Some s''" for now' s''
    proof -
      have l': "i < length (zyncoders s')" using i' by (simp add: MAX_NUM_ZYNCODERS_def)
      note a' = update_zyncoder_repeat [OF u' i' en' le']
      from zyncoder_advance_noop [OF a' l'] b'
      have "zvalue (zyncoders s'' ! i) = zvalue (zyncoders s' ! i)"
        and "subvalue (zyncoders s'' ! i) = subvalue (zyncoders s' ! i)"
        by auto
      moreover from update_zyncoder_entry [OF u' i' en']
      have "last_encoded (zyncoders s'' ! i) = encoded" using enc by simp
      moreover note zyncoder_advance_neither_effects [OF a' b']
      ultimately show ?thesis by simp
    qed
    from c1 c3 show ?thesis by blast
  qed
  from eq neither rest show ?thesis by blast
qed


theorem update_zyncoder_quadrature_witness:
  "update_zyncoder 0 1 0 0 sample_state =
     zyncoder_advance 0 1 0 0
       (sample_state\<lparr>zyncoders := [fixed_zyncoder\<lparr>last_encoded := 2\<rparr>, velocity_zyncoder]\<rparr>)
   \<and> update_zyncoder 0 1 0 0 sample_state =
       Some (sample_state\<lparr>zyncoders := [fixed_zyncoder\<lparr>last_encoded := 2, zvalue := 6\<rparr>,
                                          velocity_zyncoder],
                           effects := [Internal_send_ccontrol_change 0 1 6]\<rparr>)
   \<and> update_zyncoder 1 0 0 5000 sample_state =
       Some (sample_state\<lparr>zyncoders :=
               [fixed_zyncoder, velocity_zyncoder\<lparr>dtus := [0, 0, 0, 5000], tsus := 5000\<rparr>]\<rparr>)
   \<and> update_zyncoder 1 1 0 5000 sample_state =
       Some (sample_state\<lparr>zyncoders :=
               [fixed_zyncoder,
                velocity_zyncoder\<lparr>last_encoded := 2, dtus := [0, 0, 0, 5000], subvalue := 28,
                                  tsus := 5000, zvalue := 7\<rparr>],
               effects := [Internal_send_ccontrol_change 0 7 7]\<rparr>)
   \<and> update_zyncoder 1 1 0 20000
         (sample_state\<lparr>zyncoders :=
               [fixed_zyncoder,
                velocity_zyncoder\<lparr>last_encoded := 2, dtus := [0, 0, 0, 5000], subvalue := 28,
                                  tsus := 5000, zvalue := 7\<rparr>],
               effects := [Internal_send_ccontrol_change 0 7 7]\<rparr>) =
       Some (sample_state\<lparr>zyncoders :=
               [fixed_zyncoder,
                velocity_zyncoder\<lparr>last_encoded := 2, dtus := [0, 0, 5000, 15000], subvalue := 28,
                                  tsus := 20000, zvalue := 7\<rparr>],
               effects := [Internal_send_ccontrol_change 0 7 7]\<rparr>)"
proof -
  let ?s1 = "sample_state\<lparr>zyncoders := [fixed_zyncoder\<lparr>last_encoded := 2\<rparr>, velocity_zyncoder]\<rparr>"
  have h: "0 < MAX_NUM_ZYNCODERS sample_state" "fixed_zyncoder = zyncoders sample_state ! 0"
    "enabled fixed_zyncoder"
    "(2 :: 8 word) = push_bit 1 1 OR 0"
    "(2 :: 8 word) = push_bit 2 (last_encoded fixed_zyncoder) OR 2"
    "?s1 = sample_state\<lparr>zyncoders := (zyncoders sample_state)
           [0 := fixed_zyncoder\<lparr>last_encoded := 2\<rparr>]\<rparr>"
    by (simp_all add: sample_state_def fixed_zyncoder_def MAX_NUM_ZYNCODERS_def)
  from update_zyncoder_quadrature [OF h, of 0, THEN conjunct1]
  have eq: "update_zyncoder 0 1 0 0 sample_state = zyncoder_advance 0 1 0 0 ?s1"
    by simp
  have "zyncoder_advance 0 1 0 0 ?s1 =
          Some (sample_state\<lparr>zyncoders := [fixed_zyncoder\<lparr>last_encoded := 2, zvalue := 6\<rparr>,
                                             velocity_zyncoder],
                              effects := [Internal_send_ccontrol_change 0 1 6]\<rparr>)"
    by (simp add: zyncoder_advance_def fixed_step_value_def send_zyncoder_def emit_def
          MAX_NUM_ZYNCODERS_def sample_state_def fixed_zyncoder_def Let_def)
  with eq have first: "update_zyncoder 0 1 0 0 sample_state =
          Some (sample_state\<lparr>zyncoders := [fixed_zyncoder\<lparr>last_encoded := 2, zvalue := 6\<rparr>,
                                             velocity_zyncoder],
                              effects := [Internal_send_ccontrol_change 0 1 6]\<rparr>)"
    by simp
  have g: "1 < MAX_NUM_ZYNCODERS sample_state" "velocity_zyncoder = zyncoders sample_state ! 1"
    "enabled velocity_zyncoder"
    "(0 :: 8 word) = push_bit 1 0 OR 0"
    "(0 :: 8 word) = push_bit 2 (last_encoded velocity_zyncoder) OR 0"
    "sample_state = sample_state\<lparr>zyncoders := (zyncoders sample_state)
           [1 := velocity_zyncoder\<lparr>last_encoded := 0\<rparr>]\<rparr>"
    by (simp_all add: sample_state_def velocity_zyncoder_def MAX_NUM_ZYNCODERS_def)
  have n: "(0 :: 8 word) \<notin> {0b1101, 0b0100, 0b0010, 0b1011}
         \<and> (0 :: 8 word) \<notin> {0b1110, 0b0111, 0b0001, 0b1000}"
    by simp
  from update_zyncoder_quadrature [OF g, of 5000, THEN conjunct2, THEN conjunct1, THEN mp, OF n]
  have neither: "update_zyncoder 1 0 0 5000 sample_state =
       Some (sample_state\<lparr>zyncoders :=
               [fixed_zyncoder, velocity_zyncoder\<lparr>dtus := [0, 0, 0, 5000], tsus := 5000\<rparr>]\<rparr>)"
    by (simp add: sample_state_def velocity_zyncoder_def tick_interval_def dtus_avg_of_def
          ZYNCODER_TICKS_PER_RETENT_def word_less_nat_alt)
  let ?sb = "sample_state\<lparr>zyncoders :=
               [fixed_zyncoder,
                velocity_zyncoder\<lparr>last_encoded := 2, dtus := [0, 0, 0, 5000], subvalue := 28,
                                  tsus := 5000, zvalue := 7\<rparr>],
               effects := [Internal_send_ccontrol_change 0 7 7]\<rparr>"
  let ?sc = "sample_state\<lparr>zyncoders :=
               [fixed_zyncoder,
                velocity_zyncoder\<lparr>last_encoded := 2, dtus := [0, 0, 5000, 15000], subvalue := 28,
                                  tsus := 20000, zvalue := 7\<rparr>],
               effects := [Internal_send_ccontrol_change 0 7 7]\<rparr>"
  have k: "1 < MAX_NUM_ZYNCODERS sample_state" "velocity_zyncoder = zyncoders sample_state ! 1"
    "enabled velocity_zyncoder"
    "(2 :: 8 word) = push_bit 1 1 OR 0"
    "(2 :: 8 word) = push_bit 2 (last_encoded velocity_zyncoder) OR 2"
    "sample_state\<lparr>zyncoders := [fixed_zyncoder, velocity_zyncoder\<lparr>last_encoded := 2\<rparr>]\<rparr>
       = sample_state\<lparr>zyncoders := (zyncoders sample_state)
           [1 := velocity_zyncoder\<lparr>last_encoded := 2\<rparr>]\<rparr>"
    by (simp_all add: sample_state_def velocity_zyncoder_def MAX_NUM_ZYNCODERS_def)
  have up: "update_zyncoder 1 1 0 5000 sample_state = Some ?sb"
    by (simp add: update_zyncoder_def quadrature_up_def quadrature_down_def
          zyncoder_advance_def velocity_value_def velocity_subvalue_def dsval_of_def
          tick_interval_def dtus_avg_of_def ZYNCODER_TICKS_PER_RETENT_def
          send_zyncoder_def emit_def
          MAX_NUM_ZYNCODERS_def sample_state_def velocity_zyncoder_def Let_def
          word_le_nat_alt word_less_nat_alt)
  have again: "update_zyncoder 1 1 0 20000 ?sb = Some ?sc"
    by (simp add: update_zyncoder_def quadrature_up_def quadrature_down_def
          zyncoder_advance_def velocity_value_def velocity_subvalue_def dsval_of_def
          tick_interval_def dtus_avg_of_def ZYNCODER_TICKS_PER_RETENT_def
          send_zyncoder_def emit_def
          MAX_NUM_ZYNCODERS_def sample_state_def velocity_zyncoder_def Let_def
          word_le_nat_alt word_less_nat_alt)
  from update_zyncoder_quadrature [OF k, of 5000, THEN conjunct2, THEN conjunct2] up again
  have kept: "zvalue (zyncoders ?sc ! 1) = zvalue (zyncoders ?sb ! 1)
            \<and> subvalue (zyncoders ?sc ! 1) = subvalue (zyncoders ?sb ! 1)
            \<and> last_encoded (zyncoders ?sc ! 1) = 2
            \<and> effects ?sc = effects ?sb"
    by blast
  from eq first neither up again kept show ?thesis by simp
qed

text \<open>
  Claim C2 as stated fails where it calls every other value of \<open>sum\<close> a no-op. The pair
  (0, 0) arriving with \<open>last_encoded = 0\<close> gives \<open>sum = 0\<close>, in neither set. On the sample
  fixed-step encoder (\<open>max_value = 10\<close>) after \<open>midi_event_zyncoders(0, 1, 127)\<close> has stored the
  value 127, this tick changes the value to 10 and emits the change. On the sample
  velocity-mode encoder, 100000 us after the last accepted tick, it stores the clock reading
  in \<open>tsus\<close> and shifts the interval into the \<open>dtus\<close> ring.
\<close>
theorem quadrature_noop_counterexample:
  "push_bit 2 (last_encoded (zyncoders (midi_event_zyncoders 0 1 127 fixed_state) ! 0))
      OR (push_bit 1 0 OR 0) = (0 :: 8 word)
   \<and> (0 :: 8 word) \<notin> {0b1101, 0b0100, 0b0010, 0b1011}
   \<and> (0 :: 8 word) \<notin> {0b1110, 0b0111, 0b0001, 0b1000}
   \<and> zvalue (zyncoders (midi_event_zyncoders 0 1 127 fixed_state) ! 0) = 127
   \<and> update_zyncoder 0 0 0 0 (midi_event_zyncoders 0 1 127 fixed_state) =
       Some (fixed_state\<lparr>zyncoders := [fixed_zyncoder\<lparr>zvalue := 10, subvalue := 508\<rparr>],
                          effects := [Internal_send_ccontrol_change 0 1 10]\<rparr>)
   \<and> update_zyncoder 0 0 0 0 (midi_event_zyncoders 0 1 127 fixed_state) \<noteq>
       Some (midi_event_zyncoders 0 1 127 fixed_state)
   \<and> push_bit 2 (last_encoded (zyncoders sample_state ! 1)) OR (push_bit 1 0 OR 0) = (0 :: 8 word)
   \<and> update_zyncoder 1 0 0 100000 sample_state =
       Some (sample_state\<lparr>zyncoders :=
               [fixed_zyncoder, velocity_zyncoder\<lparr>dtus := [0, 0, 0, 100000], tsus := 100000\<rparr>]\<rparr>)
   \<and> update_zyncoder 1 0 0 100000 sample_state \<noteq> Some sample_state"
proof -
  have m: "midi_event_zyncoders 0 1 127 fixed_state =
             fixed_state\<lparr>zyncoders := [fixed_zyncoder\<lparr>zvalue := 127, subvalue := 508\<rparr>]\<rparr>"
    by (simp add: midi_event_zyncoders_def MAX_NUM_ZYNCODERS_def fixed_state_def
          fixed_zyncoder_def ZYNCODER_TICKS_PER_RETENT_def)
  have f: "update_zyncoder 0 0 0 0
             (fixed_state\<lparr>zyncoders := [fixed_zyncoder\<lparr>zvalue := 127, subvalue := 508\<rparr>]\<rparr>) =
       Some (fixed_state\<lparr>zyncoders := [fixed_zyncoder\<lparr>zvalue := 10, subvalue := 508\<rparr>],
                          effects := [Internal_send_ccontrol_change 0 1 10]\<rparr>)"
    by (simp add: update_zyncoder_def quadrature_up_def quadrature_down_def
          zyncoder_advance_def fixed_step_value_def send_zyncoder_def emit_def
          MAX_NUM_ZYNCODERS_def fixed_state_def fixed_zyncoder_def Let_def
          word_le_nat_alt word_less_nat_alt)
  have v: "update_zyncoder 1 0 0 100000 sample_state =
       Some (sample_state\<lparr>zyncoders :=
               [fixed_zyncoder, velocity_zyncoder\<lparr>dtus := [0, 0, 0, 100000], tsus := 100000\<rparr>]\<rparr>)"
    by (simp add: update_zyncoder_def quadrature_up_def quadrature_down_def
          zyncoder_advance_def velocity_value_def velocity_subvalue_def tick_interval_def
          dtus_avg_of_def ZYNCODER_TICKS_PER_RETENT_def
          MAX_NUM_ZYNCODERS_def sample_state_def velocity_zyncoder_def Let_def
          word_le_nat_alt word_less_nat_alt)
  have c1: "push_bit 2 (last_encoded (zyncoders (midi_event_zyncoders 0 1 127 fixed_state) ! 0))
      OR (push_bit 1 0 OR 0) = (0 :: 8 word)"
    "zvalue (zyncoders (midi_event_zyncoders 0 1 127 fixed_state) ! 0) = 127"
    unfolding m by (simp_all add: fixed_state_def fixed_zyncoder_def)
  have c2: "update_zyncoder 0 0 0 0 (midi_event_zyncoders 0 1 127 fixed_state) \<noteq>
       Some (midi_event_zyncoders 0 1 127 fixed_state)"
    unfolding m f by (simp add: fixed_state_def)
  have c3: "push_bit 2 (last_encoded (zyncoders sample_state ! 1)) OR (push_bit 1 0 OR 0) = (0 :: 8 word)"
    by (simp add: sample_state_def velocity_zyncoder_def)
  have c4: "update_zyncoder 1 0 0 100000 sample_state \<noteq> Some sample_state"
    unfolding v by (simp add: sample_state_def velocity_zyncoder_def)
  have c5: "(0 :: 8 word) \<notin> {0b1101, 0b0100, 0b0010, 0b1011}"
    "(0 :: 8 word) \<notin> {0b1110, 0b0111, 0b0001, 0b1000}"
    by simp_all
  from c1 c2 c3 c4 c5 f v show ?thesis unfolding m by blast
qed


section \<open>Debounce of encoder ticks\<close>

lemma update_zyncoder_uart_eq:
  assumes "i < MAX_NUM_ZYNCODERS s" and "enabled (zyncoders s ! i)"
  shows "update_zyncoder_uart i data now s =
           zyncoder_advance i (payload_bit data (pin_b (zyncoders s ! i)))
             (payload_bit data (pin_a (zyncoders s ! i))) now s"
  using assms by (simp add: update_zyncoder_uart_def Let_def)

text \<open>
  Claim C4, as the code has it. The debounce belongs to velocity mode (\<open>step == 0\<close>): a tick of
  an enabled encoder that arrives with \<open>dtus = now_us - tsus < 1000\<close> is discarded, so \<open>value\<close>,
  \<open>subvalue\<close>, \<open>tsus\<close> and the ring of intervals keep their content and nothing is emitted. In
  the builds that decode the quadrature signal the field \<open>last_encoded\<close> has already been set
  to the new pin pair when the tick is discarded, and that is the only change; in the UART
  build the state is unchanged. A velocity-mode tick that is not discarded stores
  \<open>tsus = now_us\<close>, so accepted velocity-mode ticks are at least 1000 microseconds apart as
  measured. (Fixed-step mode has no debounce.)
\<close>
theorem velocity_tick_debounce:
  assumes i: "i < MAX_NUM_ZYNCODERS s" and en: "enabled (zyncoders s ! i)"
    and st: "step (zyncoders s ! i) = 0"
  shows "(tick_interval now (zyncoders s ! i) < 1000 \<longrightarrow>
            update_zyncoder i MSB LSB now s =
              Some (s\<lparr>zyncoders := (zyncoders s)[i := (zyncoders s ! i)
                        \<lparr>last_encoded := push_bit 1 MSB OR LSB\<rparr>]\<rparr>)
          \<and> update_zyncoder_uart i data now s = Some s)
       \<and> (\<forall>s'. \<not> tick_interval now (zyncoders s ! i) < 1000
              \<and> (update_zyncoder i MSB LSB now s = Some s'
                   \<or> update_zyncoder_uart i data now s = Some s')
              \<longrightarrow> tsus (zyncoders s' ! i) = now)"
proof -
  let ?z = "zyncoders s ! i"
  let ?s1 = "s\<lparr>zyncoders := (zyncoders s)[i := ?z\<lparr>last_encoded := push_bit 1 MSB OR LSB\<rparr>]\<rparr>"
  have l: "i < length (zyncoders s)" using i by (simp add: MAX_NUM_ZYNCODERS_def)
  have z1: "step (zyncoders ?s1 ! i) = 0"
    "tick_interval now (zyncoders ?s1 ! i) = tick_interval now ?z"
    using l st by (simp_all add: tick_interval_def)
  have a: "update_zyncoder i MSB LSB now s = Some ?s1 \<and> update_zyncoder_uart i data now s = Some s"
    if d: "tick_interval now ?z < 1000"
  proof -
    have "zyncoder_advance i up down now ?s1 = Some ?s1" for up down
      by (rule zyncoder_advance_debounced) (simp_all only: z1 d)
    moreover have "zyncoder_advance i up down now s = Some s" for up down
      by (rule zyncoder_advance_debounced [OF st d])
    ultimately show ?thesis
      by (simp only: update_zyncoder_eq [OF i en] update_zyncoder_uart_eq [OF i en])
  qed
  have b: "tsus (zyncoders s' ! i) = now"
    if d: "\<not> tick_interval now ?z < 1000"
      and u: "update_zyncoder i MSB LSB now s = Some s' \<or> update_zyncoder_uart i data now s = Some s'"
    for s'
  proof -
    from u consider up down where "zyncoder_advance i up down now ?s1 = Some s'"
      | up down where "zyncoder_advance i up down now s = Some s'"
      by (auto simp only: update_zyncoder_eq [OF i en] update_zyncoder_uart_eq [OF i en])
    then show ?thesis
    proof cases
      case 1
      have d1: "\<not> tick_interval now (zyncoders ?s1 ! i) < 1000" unfolding z1 by (rule d)
      from zyncoder_advance_velocity [OF z1(1) d1 1 refl refl] l show ?thesis by simp
    next
      case 2
      from zyncoder_advance_velocity [OF st d 2 refl refl] l show ?thesis by simp
    qed
  qed
  from a b show ?thesis by blast
qed

theorem velocity_tick_debounce_witness:
  "update_zyncoder 1 1 0 4294967796 sample_state =
     Some (sample_state\<lparr>zyncoders := [fixed_zyncoder, velocity_zyncoder\<lparr>last_encoded := 2\<rparr>]\<rparr>)
   \<and> update_zyncoder_uart 1 (\<lambda>k. 8) 4294967796 sample_state = Some sample_state"
proof -
  have h: "1 < MAX_NUM_ZYNCODERS sample_state" "enabled (zyncoders sample_state ! 1)"
    "step (zyncoders sample_state ! 1) = 0"
    by (simp_all add: sample_state_def velocity_zyncoder_def MAX_NUM_ZYNCODERS_def)
  have d: "tick_interval 4294967796 (zyncoders sample_state ! 1) < 1000"
    by (simp add: sample_state_def velocity_zyncoder_def tick_interval_def)
  from velocity_tick_debounce [OF h, of 4294967796 1 0 "\<lambda>k. 8"] d
  show ?thesis by (simp add: sample_state_def)
qed

text \<open>
  Claim C4 as stated fails twice, shown at clock reading 4294967796 (\<open>2^32 + 500\<close>) with the
  stored \<open>tsus = 0\<close>, where the 32-bit interval \<open>dtus\<close> is 500. In fixed-step mode the tick is
  processed: the value of the sample encoder goes from 5 to 6 and the change is emitted. In
  velocity mode the tick is discarded, but \<open>last_encoded\<close> has been updated.
\<close>
theorem tick_debounce_counterexample:
  "tick_interval 4294967796 (zyncoders sample_state ! 0) < 1000
   \<and> update_zyncoder 0 1 0 4294967796 sample_state =
       Some (sample_state\<lparr>zyncoders := [fixed_zyncoder\<lparr>last_encoded := 2, zvalue := 6\<rparr>,
                                          velocity_zyncoder],
                           effects := [Internal_send_ccontrol_change 0 1 6]\<rparr>)
   \<and> zvalue (zyncoders sample_state ! 0) = 5
   \<and> tick_interval 4294967796 (zyncoders sample_state ! 1) < 1000
   \<and> update_zyncoder 1 1 0 4294967796 sample_state =
       Some (sample_state\<lparr>zyncoders := [fixed_zyncoder, velocity_zyncoder\<lparr>last_encoded := 2\<rparr>]\<rparr>)
   \<and> last_encoded (zyncoders sample_state ! 1) = 0"
  by (simp add: update_zyncoder_def zyncoder_advance_def fixed_step_value_def send_zyncoder_def
        emit_def MAX_NUM_ZYNCODERS_def sample_state_def fixed_zyncoder_def velocity_zyncoder_def
        quadrature_up_def quadrature_down_def tick_interval_def Let_def)


section \<open>Saturation\<close>

lemma fixed_step_value_up:
  assumes "up \<noteq> 0" and "step z \<noteq> 0"
  shows "unat (fixed_step_value up 0 z) =
           (let v0 = min (unat (zvalue z)) (unat (max_value z)) in
            if unat (step z) \<le> unat (max_value z) - v0 then v0 + unat (step z) else v0)"
proof (cases "zvalue z > max_value z")
  case True
  then have m: "min (unat (zvalue z)) (unat (max_value z)) = unat (max_value z)"
    by (simp add: word_less_nat_alt)
  have s: "0 < unat (step z)" using assms by (simp add: unat_gt_0)
  from True assms s show ?thesis
    by (simp add: fixed_step_value_def Let_def m word_le_nat_alt)
next
  case False
  then have m: "min (unat (zvalue z)) (unat (max_value z)) = unat (zvalue z)"
    by (simp add: word_less_nat_alt)
  from False have le: "zvalue z \<le> max_value z" by simp
  show ?thesis
  proof (cases "step z \<le> max_value z - zvalue z")
    case t: True
    from t le have "unat (zvalue z + step z) = unat (zvalue z) + unat (step z)" by unat_arith
    moreover from t le have "unat (step z) \<le> unat (max_value z) - unat (zvalue z)" by unat_arith
    ultimately show ?thesis using False t assms
      by (simp add: fixed_step_value_def Let_def m)
  next
    case f: False
    from f le have "\<not> unat (step z) \<le> unat (max_value z) - unat (zvalue z)" by unat_arith
    then show ?thesis using False f assms
      by (simp add: fixed_step_value_def Let_def m)
  qed
qed

lemma fixed_step_value_down:
  assumes "down \<noteq> 0" and "step z \<noteq> 0"
  shows "unat (fixed_step_value 0 down z) =
           (let v0 = min (unat (zvalue z)) (unat (max_value z)) in
            if unat (step z) \<le> v0 then v0 - unat (step z) else v0)"
proof -
  define w where "w = (if zvalue z > max_value z then max_value z else zvalue z)"
  have m: "min (unat (zvalue z)) (unat (max_value z)) = unat w"
    by (simp add: w_def word_less_nat_alt)
  have f: "fixed_step_value 0 down z = (if w \<ge> step z then w - step z else w)"
    using assms by (simp add: fixed_step_value_def Let_def w_def)
  show ?thesis
  proof (cases "w \<ge> step z")
    case True
    then have "unat (w - step z) = unat w - unat (step z)" by unat_arith
    moreover from True have "unat (step z) \<le> unat w" by unat_arith
    ultimately show ?thesis by (simp add: f m True)
  next
    case False
    then have "\<not> unat (step z) \<le> unat w" by unat_arith
    then show ?thesis by (simp add: f m False)
  qed
qed


lemma up_closed_form:
  fixes st v M n :: nat
  assumes "0 < st"
  shows "(if st \<le> M - v then v + st else v)
           + st * min n ((M - (if st \<le> M - v then v + st else v)) div st)
         = v + st * min (Suc n) ((M - v) div st)"
proof (cases "st \<le> M - v")
  case True
  with assms have "(M - v) div st = Suc ((M - v - st) div st)" by (simp add: le_div_geq)
  moreover have "M - (v + st) = M - v - st" by simp
  ultimately show ?thesis using True by (simp add: algebra_simps)
next
  case False
  then have "(M - v) div st = 0" by simp
  with False show ?thesis by simp
qed

lemma down_closed_form:
  fixes st v n :: nat
  assumes "0 < st"
  shows "(if st \<le> v then v - st else v)
           - st * min n ((if st \<le> v then v - st else v) div st)
         = v - st * min (Suc n) (v div st)"
proof (cases "st \<le> v")
  case True
  with assms have d: "v div st = Suc ((v - st) div st)" by (simp add: le_div_geq)
  show ?thesis using True by (simp add: d algebra_simps)
next
  case False
  then have "v div st = 0" by simp
  with False show ?thesis by simp
qed

lemma zyncoder_ticks_fixed_up:
  assumes "step (zyncoders s ! i) \<noteq> 0" and "i < length (zyncoders s)" and "up \<noteq> 0"
    and "zvalue (zyncoders s ! i) \<le> max_value (zyncoders s ! i)"
  shows "\<exists>s'. zyncoder_ticks i up 0 ts s = Some s'
           \<and> unat (zvalue (zyncoders s' ! i)) =
               unat (zvalue (zyncoders s ! i))
               + unat (step (zyncoders s ! i))
                 * min (length ts)
                     ((unat (max_value (zyncoders s ! i)) - unat (zvalue (zyncoders s ! i)))
                        div unat (step (zyncoders s ! i)))"
  using assms
proof (induction ts arbitrary: s)
  case Nil
  then show ?case by simp
next
  case (Cons now later)
  let ?z = "zyncoders s ! i"
  let ?v = "fixed_step_value up 0 ?z"
  from zyncoder_advance_fixed [OF Cons.prems(1), of up 0 now]
  obtain s1 where a: "zyncoder_advance i up 0 now s = Some s1"
    and zs: "zyncoders s1 = (zyncoders s)[i := ?z\<lparr>zvalue := ?v\<rparr>]"
    by blast
  have z1: "zyncoders s1 ! i = ?z\<lparr>zvalue := ?v\<rparr>" using Cons.prems(2) by (simp add: zs)
  have p1: "step (zyncoders s1 ! i) \<noteq> 0" using Cons.prems(1) by (simp add: z1)
  have p2: "i < length (zyncoders s1)" using Cons.prems(2) by (simp add: zs)
  have p4: "zvalue (zyncoders s1 ! i) \<le> max_value (zyncoders s1 ! i)"
    using fixed_step_value_le [of up 0 ?z] by (simp add: z1)
  from Cons.IH [OF p1 p2 Cons.prems(3) p4]
  obtain s' where r: "zyncoder_ticks i up 0 later s1 = Some s'"
    and v: "unat (zvalue (zyncoders s' ! i)) =
              unat ?v + unat (step ?z)
                * min (length later) ((unat (max_value ?z) - unat ?v) div unat (step ?z))"
    by (auto simp: z1)
  have m: "min (unat (zvalue ?z)) (unat (max_value ?z)) = unat (zvalue ?z)"
    using Cons.prems(4) by (simp add: word_le_nat_alt)
  have st: "0 < unat (step ?z)" using Cons.prems(1) by (simp add: unat_gt_0)
  have fv: "unat ?v = (if unat (step ?z) \<le> unat (max_value ?z) - unat (zvalue ?z)
                       then unat (zvalue ?z) + unat (step ?z) else unat (zvalue ?z))"
    using fixed_step_value_up [OF Cons.prems(3) Cons.prems(1)] by (simp add: Let_def m)
  have "unat (zvalue (zyncoders s' ! i)) =
          unat (zvalue ?z) + unat (step ?z)
            * min (Suc (length later))
                ((unat (max_value ?z) - unat (zvalue ?z)) div unat (step ?z))"
    unfolding v fv by (rule up_closed_form [OF st])
  with a r show ?case by simp
qed

lemma zyncoder_ticks_fixed_down:
  assumes "step (zyncoders s ! i) \<noteq> 0" and "i < length (zyncoders s)" and "down \<noteq> 0"
    and "zvalue (zyncoders s ! i) \<le> max_value (zyncoders s ! i)"
  shows "\<exists>s'. zyncoder_ticks i 0 down ts s = Some s'
           \<and> unat (zvalue (zyncoders s' ! i)) =
               unat (zvalue (zyncoders s ! i))
               - unat (step (zyncoders s ! i))
                 * min (length ts)
                     (unat (zvalue (zyncoders s ! i)) div unat (step (zyncoders s ! i)))"
  using assms
proof (induction ts arbitrary: s)
  case Nil
  then show ?case by simp
next
  case (Cons now later)
  let ?z = "zyncoders s ! i"
  let ?v = "fixed_step_value 0 down ?z"
  from zyncoder_advance_fixed [OF Cons.prems(1), of 0 down now]
  obtain s1 where a: "zyncoder_advance i 0 down now s = Some s1"
    and zs: "zyncoders s1 = (zyncoders s)[i := ?z\<lparr>zvalue := ?v\<rparr>]"
    by blast
  have z1: "zyncoders s1 ! i = ?z\<lparr>zvalue := ?v\<rparr>" using Cons.prems(2) by (simp add: zs)
  have p1: "step (zyncoders s1 ! i) \<noteq> 0" using Cons.prems(1) by (simp add: z1)
  have p2: "i < length (zyncoders s1)" using Cons.prems(2) by (simp add: zs)
  have p4: "zvalue (zyncoders s1 ! i) \<le> max_value (zyncoders s1 ! i)"
    using fixed_step_value_le [of 0 down ?z] by (simp add: z1)
  from Cons.IH [OF p1 p2 Cons.prems(3) p4]
  obtain s' where r: "zyncoder_ticks i 0 down later s1 = Some s'"
    and v: "unat (zvalue (zyncoders s' ! i)) =
              unat ?v - unat (step ?z) * min (length later) (unat ?v div unat (step ?z))"
    by (auto simp: z1)
  have m: "min (unat (zvalue ?z)) (unat (max_value ?z)) = unat (zvalue ?z)"
    using Cons.prems(4) by (simp add: word_le_nat_alt)
  have st: "0 < unat (step ?z)" using Cons.prems(1) by (simp add: unat_gt_0)
  have fv: "unat ?v = (if unat (step ?z) \<le> unat (zvalue ?z)
                       then unat (zvalue ?z) - unat (step ?z) else unat (zvalue ?z))"
    using fixed_step_value_down [OF Cons.prems(3) Cons.prems(1)] by (simp add: Let_def m)
  have "unat (zvalue (zyncoders s' ! i)) =
          unat (zvalue ?z) - unat (step ?z)
            * min (Suc (length later)) (unat (zvalue ?z) div unat (step ?z))"
    unfolding v fv by (rule down_closed_form [OF st])
  with a r show ?case by simp
qed


lemma dsval_of_bounds: "1 \<le> dsval_of a \<and> dsval_of a \<le> 2 * of_nat ZYNCODER_TICKS_PER_RETENT"
proof -
  define q :: "32 word" where "q = (10000 * of_nat ZYNCODER_TICKS_PER_RETENT) div a"
  define m :: "32 word" where "m = 2 * of_nat ZYNCODER_TICKS_PER_RETENT"
  have m8: "m = 8" by (simp add: m_def ZYNCODER_TICKS_PER_RETENT_def)
  have d: "dsval_of a = (if q < 1 then 1 else if q > m then m else q)"
    by (simp add: dsval_of_def Let_def q_def m_def)
  have "1 \<le> (if q < 1 then 1 else if q > m then m else q)
      \<and> (if q < 1 then 1 else if q > m then m else q) \<le> m"
    unfolding m8 by (simp add: word_le_nat_alt word_less_nat_alt)
  then show ?thesis unfolding d m_def .
qed

lemma velocity_subvalue_up:
  assumes "up \<noteq> 0" and "1 \<le> d" and "subvalue z \<le> max_value z"
  shows "velocity_subvalue up down d z \<le> max_value z
       \<and> min (unat (max_value z)) (unat (subvalue z) + 1) \<le> unat (velocity_subvalue up down d z)"
proof (cases "d \<le> max_value z - subvalue z")
  case True
  with assms have "subvalue z + d \<le> max_value z" "unat (subvalue z) + 1 \<le> unat (subvalue z + d)"
    by unat_arith+
  with True assms show ?thesis by (simp add: velocity_subvalue_def)
next
  case False
  with assms show ?thesis by (simp add: velocity_subvalue_def)
qed

lemma velocity_subvalue_down:
  assumes "down \<noteq> 0" and "1 \<le> d"
  shows "unat (velocity_subvalue 0 down d z) \<le> unat (subvalue z) - 1"
proof (cases "d \<le> subvalue z")
  case True
  with assms have "unat (subvalue z - d) \<le> unat (subvalue z) - 1" by unat_arith
  with True assms show ?thesis by (simp add: velocity_subvalue_def)
next
  case False
  with assms show ?thesis by (simp add: velocity_subvalue_def)
qed

lemma zyncoder_ticks_velocity_up:
  assumes "zyncoder_ticks i up down ts s = Some s'"
    and "step (zyncoders s ! i) = 0" and "i < length (zyncoders s)" and "up \<noteq> 0"
    and "subvalue (zyncoders s ! i) \<le> max_value (zyncoders s ! i)"
    and "accepted_ticks (tsus (zyncoders s ! i)) ts"
  shows "max_value (zyncoders s' ! i) = max_value (zyncoders s ! i)
       \<and> subvalue (zyncoders s' ! i) \<le> max_value (zyncoders s ! i)
       \<and> min (unat (max_value (zyncoders s ! i))) (unat (subvalue (zyncoders s ! i)) + length ts)
           \<le> unat (subvalue (zyncoders s' ! i))
       \<and> (ts \<noteq> [] \<longrightarrow> zvalue (zyncoders s' ! i)
             = subvalue (zyncoders s' ! i) div of_nat ZYNCODER_TICKS_PER_RETENT)"
  using assms
proof (induction ts arbitrary: s)
  case Nil
  then show ?case by simp
next
  case (Cons now later)
  let ?z = "zyncoders s ! i"
  define dt where "dt = tick_interval now ?z"
  define sub where "sub = velocity_subvalue up down (dsval_of (dtus_avg_of dt (dtus ?z))) ?z"
  from Cons.prems(1) obtain s1 where a: "zyncoder_advance i up down now s = Some s1"
    and r: "zyncoder_ticks i up down later s1 = Some s'"
    by (auto split: option.splits)
  from Cons.prems(6) have d: "\<not> tick_interval now ?z < 1000" and acc: "accepted_ticks now later"
    by (simp_all add: tick_interval_def)
  from zyncoder_advance_velocity [OF Cons.prems(2) d a dt_def sub_def] Cons.prems(3)
  have z1: "zyncoders s1 ! i = ?z\<lparr>dtus := tl (dtus ?z) @ [dt], subvalue := sub, tsus := now,
              zvalue := (case velocity_value up down sub of None \<Rightarrow> zvalue ?z | Some v \<Rightarrow> v)\<rparr>"
    and len: "length (zyncoders s1) = length (zyncoders s)"
    by simp_all
  from velocity_subvalue_up [OF Cons.prems(4) _ Cons.prems(5), of _ down] dsval_of_bounds
  have sb: "sub \<le> max_value ?z"
    and lo: "min (unat (max_value ?z)) (unat (subvalue ?z) + 1) \<le> unat sub"
    unfolding sub_def by blast+
  have p2: "step (zyncoders s1 ! i) = 0" using Cons.prems(2) by (simp add: z1)
  have p3: "i < length (zyncoders s1)" using Cons.prems(3) len by simp
  have p5: "subvalue (zyncoders s1 ! i) \<le> max_value (zyncoders s1 ! i)" using sb by (simp add: z1)
  have p6: "accepted_ticks (tsus (zyncoders s1 ! i)) later" using acc by (simp add: z1)
  note ih = Cons.IH [OF r p2 p3 Cons.prems(4) p5 p6]
  from ih have c1: "max_value (zyncoders s' ! i) = max_value ?z"
    and c2: "subvalue (zyncoders s' ! i) \<le> max_value ?z"
    and c3: "min (unat (max_value ?z)) (unat sub + length later) \<le> unat (subvalue (zyncoders s' ! i))"
    and c4: "later \<noteq> [] \<longrightarrow> zvalue (zyncoders s' ! i)
               = subvalue (zyncoders s' ! i) div of_nat ZYNCODER_TICKS_PER_RETENT"
    by (simp_all add: z1)
  from c3 lo have c3': "min (unat (max_value ?z)) (unat (subvalue ?z) + length (now # later))
                          \<le> unat (subvalue (zyncoders s' ! i))"
    by (simp add: min_def split: if_splits)
  have c4': "zvalue (zyncoders s' ! i)
               = subvalue (zyncoders s' ! i) div of_nat ZYNCODER_TICKS_PER_RETENT"
  proof (cases later)
    case Nil
    with r have "s' = s1" by simp
    then show ?thesis using Cons.prems(4) by (simp add: z1 velocity_value_def)
  next
    case (Cons x xs)
    with c4 show ?thesis by simp
  qed
  from c1 c2 c3' c4' show ?case by simp
qed

lemma zyncoder_ticks_velocity_down:
  assumes "zyncoder_ticks i 0 down ts s = Some s'"
    and "step (zyncoders s ! i) = 0" and "i < length (zyncoders s)" and "down \<noteq> 0"
    and "accepted_ticks (tsus (zyncoders s ! i)) ts"
  shows "max_value (zyncoders s' ! i) = max_value (zyncoders s ! i)
       \<and> unat (subvalue (zyncoders s' ! i)) \<le> unat (subvalue (zyncoders s ! i)) - length ts
       \<and> (ts \<noteq> [] \<longrightarrow> zvalue (zyncoders s' ! i)
             = (subvalue (zyncoders s' ! i) + of_nat ZYNCODER_TICKS_PER_RETENT - 1)
                 div of_nat ZYNCODER_TICKS_PER_RETENT)"
  using assms
proof (induction ts arbitrary: s)
  case Nil
  then show ?case by simp
next
  case (Cons now later)
  let ?z = "zyncoders s ! i"
  define dt where "dt = tick_interval now ?z"
  define sub where "sub = velocity_subvalue 0 down (dsval_of (dtus_avg_of dt (dtus ?z))) ?z"
  from Cons.prems(1) obtain s1 where a: "zyncoder_advance i 0 down now s = Some s1"
    and r: "zyncoder_ticks i 0 down later s1 = Some s'"
    by (auto split: option.splits)
  from Cons.prems(5) have d: "\<not> tick_interval now ?z < 1000" and acc: "accepted_ticks now later"
    by (simp_all add: tick_interval_def)
  from zyncoder_advance_velocity [OF Cons.prems(2) d a dt_def sub_def] Cons.prems(3)
  have z1: "zyncoders s1 ! i = ?z\<lparr>dtus := tl (dtus ?z) @ [dt], subvalue := sub, tsus := now,
              zvalue := (case velocity_value 0 down sub of None \<Rightarrow> zvalue ?z | Some v \<Rightarrow> v)\<rparr>"
    and len: "length (zyncoders s1) = length (zyncoders s)"
    by simp_all
  from velocity_subvalue_down [OF Cons.prems(4)] dsval_of_bounds
  have lo: "unat sub \<le> unat (subvalue ?z) - 1"
    unfolding sub_def by blast
  have p2: "step (zyncoders s1 ! i) = 0" using Cons.prems(2) by (simp add: z1)
  have p3: "i < length (zyncoders s1)" using Cons.prems(3) len by simp
  have p6: "accepted_ticks (tsus (zyncoders s1 ! i)) later" using acc by (simp add: z1)
  note ih = Cons.IH [OF r p2 p3 Cons.prems(4) p6]
  from ih have c1: "max_value (zyncoders s' ! i) = max_value ?z"
    and c3: "unat (subvalue (zyncoders s' ! i)) \<le> unat sub - length later"
    and c4: "later \<noteq> [] \<longrightarrow> zvalue (zyncoders s' ! i)
               = (subvalue (zyncoders s' ! i) + of_nat ZYNCODER_TICKS_PER_RETENT - 1)
                   div of_nat ZYNCODER_TICKS_PER_RETENT"
    by (simp_all add: z1)
  from c3 lo have c3': "unat (subvalue (zyncoders s' ! i))
                          \<le> unat (subvalue ?z) - length (now # later)"
    by simp
  have c4': "zvalue (zyncoders s' ! i)
               = (subvalue (zyncoders s' ! i) + of_nat ZYNCODER_TICKS_PER_RETENT - 1)
                   div of_nat ZYNCODER_TICKS_PER_RETENT"
  proof (cases later)
    case Nil
    with r have "s' = s1" by simp
    then show ?thesis using Cons.prems(4) by (simp add: z1 velocity_value_def)
  next
    case (Cons x xs)
    with c4 show ?thesis by simp
  qed
  from c1 c3' c4' show ?case by simp
qed


lemma zyncoder_ticks_fixed_up_first:
  assumes s0: "step (zyncoders s ! i) \<noteq> 0" and l: "i < length (zyncoders s)" and ne: "ts \<noteq> []"
  shows "\<exists>s'. zyncoder_ticks i 1 0 ts s = Some s'
           \<and> unat (zvalue (zyncoders s' ! i)) =
               min (unat (zvalue (zyncoders s ! i))) (unat (max_value (zyncoders s ! i)))
               + unat (step (zyncoders s ! i))
                 * min (length ts)
                     ((unat (max_value (zyncoders s ! i))
                        - min (unat (zvalue (zyncoders s ! i))) (unat (max_value (zyncoders s ! i))))
                        div unat (step (zyncoders s ! i)))"
proof -
  let ?z = "zyncoders s ! i"
  let ?v = "fixed_step_value 1 0 ?z"
  let ?vmin = "min (unat (zvalue ?z)) (unat (max_value ?z))"
  from ne obtain now later where ts: "ts = now # later" by (cases ts) auto
  from zyncoder_advance_fixed [OF s0, of 1 0 now]
  obtain s1 where a: "zyncoder_advance i 1 0 now s = Some s1"
    and zs: "zyncoders s1 = (zyncoders s)[i := ?z\<lparr>zvalue := ?v\<rparr>]"
    by blast
  have z1: "zyncoders s1 ! i = ?z\<lparr>zvalue := ?v\<rparr>" using l by (simp add: zs)
  have p1: "step (zyncoders s1 ! i) \<noteq> 0" using s0 by (simp add: z1)
  have p2: "i < length (zyncoders s1)" using l by (simp add: zs)
  have p4: "zvalue (zyncoders s1 ! i) \<le> max_value (zyncoders s1 ! i)"
    using fixed_step_value_le [of 1 0 ?z] by (simp add: z1)
  from zyncoder_ticks_fixed_up [OF p1 p2 _ p4, of 1 later]
  obtain s' where r: "zyncoder_ticks i 1 0 later s1 = Some s'"
    and v: "unat (zvalue (zyncoders s' ! i)) =
              unat ?v + unat (step ?z)
                * min (length later) ((unat (max_value ?z) - unat ?v) div unat (step ?z))"
    by (auto simp: z1)
  have st: "0 < unat (step ?z)" using s0 by (simp add: unat_gt_0)
  have fv: "unat ?v = (if unat (step ?z) \<le> unat (max_value ?z) - ?vmin
                       then ?vmin + unat (step ?z) else ?vmin)"
    using fixed_step_value_up [OF _ s0, of 1] by (simp add: Let_def)
  have "unat (zvalue (zyncoders s' ! i)) =
          ?vmin + unat (step ?z) * min (Suc (length later)) ((unat (max_value ?z) - ?vmin) div unat (step ?z))"
    unfolding v fv by (rule up_closed_form [OF st])
  with a r show ?thesis by (simp add: ts)
qed

lemma zyncoder_ticks_fixed_down_first:
  assumes s0: "step (zyncoders s ! i) \<noteq> 0" and l: "i < length (zyncoders s)" and ne: "ts \<noteq> []"
  shows "\<exists>s'. zyncoder_ticks i 0 1 ts s = Some s'
           \<and> unat (zvalue (zyncoders s' ! i)) =
               min (unat (zvalue (zyncoders s ! i))) (unat (max_value (zyncoders s ! i)))
               - unat (step (zyncoders s ! i))
                 * min (length ts)
                     (min (unat (zvalue (zyncoders s ! i))) (unat (max_value (zyncoders s ! i)))
                        div unat (step (zyncoders s ! i)))"
proof -
  let ?z = "zyncoders s ! i"
  let ?v = "fixed_step_value 0 1 ?z"
  let ?vmin = "min (unat (zvalue ?z)) (unat (max_value ?z))"
  from ne obtain now later where ts: "ts = now # later" by (cases ts) auto
  from zyncoder_advance_fixed [OF s0, of 0 1 now]
  obtain s1 where a: "zyncoder_advance i 0 1 now s = Some s1"
    and zs: "zyncoders s1 = (zyncoders s)[i := ?z\<lparr>zvalue := ?v\<rparr>]"
    by blast
  have z1: "zyncoders s1 ! i = ?z\<lparr>zvalue := ?v\<rparr>" using l by (simp add: zs)
  have p1: "step (zyncoders s1 ! i) \<noteq> 0" using s0 by (simp add: z1)
  have p2: "i < length (zyncoders s1)" using l by (simp add: zs)
  have p4: "zvalue (zyncoders s1 ! i) \<le> max_value (zyncoders s1 ! i)"
    using fixed_step_value_le [of 0 1 ?z] by (simp add: z1)
  from zyncoder_ticks_fixed_down [OF p1 p2 _ p4, of 1 later]
  obtain s' where r: "zyncoder_ticks i 0 1 later s1 = Some s'"
    and v: "unat (zvalue (zyncoders s' ! i)) =
              unat ?v - unat (step ?z) * min (length later) (unat ?v div unat (step ?z))"
    by (auto simp: z1)
  have st: "0 < unat (step ?z)" using s0 by (simp add: unat_gt_0)
  have fv: "unat ?v = (if unat (step ?z) \<le> ?vmin then ?vmin - unat (step ?z) else ?vmin)"
    using fixed_step_value_down [OF _ s0, of 1] by (simp add: Let_def)
  have "unat (zvalue (zyncoders s' ! i)) =
          ?vmin - unat (step ?z) * min (Suc (length later)) (?vmin div unat (step ?z))"
    unfolding v fv by (rule down_closed_form [OF st])
  with a r show ?thesis by (simp add: ts)
qed

lemma up_limit:
  fixes st v M n :: nat
  assumes "v \<le> M"
  shows "v + st * min n ((M - v) div st) \<le> M
       \<and> ((M - v) div st \<le> n \<longrightarrow> v + st * min n ((M - v) div st) = M - (M - v) mod st)"
proof -
  have a: "st * ((M - v) div st) \<le> M - v" by simp
  have "st * min n ((M - v) div st) \<le> st * ((M - v) div st)" by simp
  with a assms have 1: "v + st * min n ((M - v) div st) \<le> M" by linarith
  have 2: "v + st * min n ((M - v) div st) = M - (M - v) mod st" if "(M - v) div st \<le> n"
  proof -
    define k where "k = st * ((M - v) div st)"
    define r where "r = (M - v) mod st"
    from that have "min n ((M - v) div st) = (M - v) div st" by simp
    then have e: "st * min n ((M - v) div st) = k" by (simp add: k_def)
    have "k + r = M - v" by (simp add: k_def r_def)
    with assms have "v + k = M - r" by linarith
    then show ?thesis unfolding e r_def .
  qed
  from 1 2 show ?thesis by blast
qed

lemma down_limit:
  fixes st v n :: nat
  shows "v div st \<le> n \<longrightarrow> v - st * min n (v div st) = v mod st"
proof
  assume "v div st \<le> n"
  then have "min n (v div st) = v div st" by simp
  then show "v - st * min n (v div st) = v mod st"
    by (simp add: minus_mult_div_eq_mod)
qed


text \<open>
  Claim C5, as the code has it. A run of \<open>n \<ge> 1\<close> ticks of one direction on an encoder, with
  \<open>v0 = min(value, max_value)\<close> the value after the saturation that opens a fixed-step tick.

  Fixed-step mode (\<open>step > 0\<close>): Up ticks add \<open>step\<close> only while \<open>max_value - value \<ge> step\<close>,
  so the value after the run is \<open>v0 + step * min(n, (max_value - v0) div step)\<close>. It never
  exceeds \<open>max_value\<close>, and from tick \<open>(max_value - v0) div step\<close> on it rests at
  \<open>max_value - (max_value - v0) mod step\<close>: exactly \<open>max_value\<close> when \<open>step\<close> divides the
  distance, otherwise less than one step below it. Down ticks subtract \<open>step\<close> only while
  \<open>value \<ge> step\<close>, so the value is \<open>v0 - step * min(n, v0 div step)\<close> and rests at
  \<open>v0 mod step\<close>: exactly 0 when \<open>step\<close> divides \<open>v0\<close>.

  Velocity mode (\<open>step == 0\<close>), for accepted ticks (each at least 1000 microseconds after the
  one before) of a run that does not divide by zero: starting with \<open>subvalue \<le> max_value\<close>,
  at least \<open>max_value - subvalue\<close> Up ticks leave \<open>subvalue\<close> at exactly the stored \<open>max_value\<close>
  and \<open>value\<close> at \<open>max_value / ZYNCODER_TICKS_PER_RETENT\<close>; at least \<open>subvalue\<close> Down ticks
  leave \<open>subvalue\<close> and \<open>value\<close> at exactly 0.
\<close>
theorem same_direction_ticks_saturate:
  fixes n st M v0 :: nat
  assumes l: "i < length (zyncoders s)" and ne: "ts \<noteq> []"
    and z: "z = zyncoders s ! i"
    and v0: "v0 = min (unat (zvalue z)) (unat (max_value z))"
    and st: "st = unat (step z)" and M: "M = unat (max_value z)" and n: "n = length ts"
  shows "(step z \<noteq> 0 \<longrightarrow>
            (\<exists>s'. zyncoder_ticks i 1 0 ts s = Some s'
                 \<and> unat (zvalue (zyncoders s' ! i)) = v0 + st * min n ((M - v0) div st)
                 \<and> unat (zvalue (zyncoders s' ! i)) \<le> M
                 \<and> ((M - v0) div st \<le> n \<longrightarrow>
                      unat (zvalue (zyncoders s' ! i)) = M - (M - v0) mod st))
          \<and> (\<exists>s'. zyncoder_ticks i 0 1 ts s = Some s'
                 \<and> unat (zvalue (zyncoders s' ! i)) = v0 - st * min n (v0 div st)
                 \<and> (v0 div st \<le> n \<longrightarrow> unat (zvalue (zyncoders s' ! i)) = v0 mod st)))
       \<and> (\<forall>s'. step z = 0 \<and> accepted_ticks (tsus z) ts \<longrightarrow>
             (zyncoder_ticks i 1 0 ts s = Some s' \<and> subvalue z \<le> max_value z
                \<and> M - unat (subvalue z) \<le> n \<longrightarrow>
                subvalue (zyncoders s' ! i) = max_value z
                \<and> zvalue (zyncoders s' ! i) = max_value z div of_nat ZYNCODER_TICKS_PER_RETENT)
           \<and> (zyncoder_ticks i 0 1 ts s = Some s' \<and> unat (subvalue z) \<le> n \<longrightarrow>
                subvalue (zyncoders s' ! i) = 0 \<and> zvalue (zyncoders s' ! i) = 0))"
proof -
  have fixed: "(\<exists>s'. zyncoder_ticks i 1 0 ts s = Some s'
                 \<and> unat (zvalue (zyncoders s' ! i)) = v0 + st * min n ((M - v0) div st)
                 \<and> unat (zvalue (zyncoders s' ! i)) \<le> M
                 \<and> ((M - v0) div st \<le> n \<longrightarrow>
                      unat (zvalue (zyncoders s' ! i)) = M - (M - v0) mod st))
          \<and> (\<exists>s'. zyncoder_ticks i 0 1 ts s = Some s'
                 \<and> unat (zvalue (zyncoders s' ! i)) = v0 - st * min n (v0 div st)
                 \<and> (v0 div st \<le> n \<longrightarrow> unat (zvalue (zyncoders s' ! i)) = v0 mod st))"
    if s0: "step z \<noteq> 0"
  proof -
    have s0': "step (zyncoders s ! i) \<noteq> 0" using s0 z by simp
    have vM: "v0 \<le> M" by (simp add: v0 M)
    from zyncoder_ticks_fixed_up_first [OF s0' l ne]
    obtain su where u: "zyncoder_ticks i 1 0 ts s = Some su"
      and uv: "unat (zvalue (zyncoders su ! i)) = v0 + st * min n ((M - v0) div st)"
      unfolding v0 st M n z by blast
    from zyncoder_ticks_fixed_down_first [OF s0' l ne]
    obtain sd where d: "zyncoder_ticks i 0 1 ts s = Some sd"
      and dv: "unat (zvalue (zyncoders sd ! i)) = v0 - st * min n (v0 div st)"
      unfolding v0 st M n z by blast
    from up_limit [OF vM, of st n] uv
    have "unat (zvalue (zyncoders su ! i)) \<le> M
        \<and> ((M - v0) div st \<le> n \<longrightarrow> unat (zvalue (zyncoders su ! i)) = M - (M - v0) mod st)"
      by simp
    moreover from down_limit [of v0 st n] dv
    have "v0 div st \<le> n \<longrightarrow> unat (zvalue (zyncoders sd ! i)) = v0 mod st" by simp
    ultimately show ?thesis using u uv d dv by blast
  qed
  have vel_up: "subvalue (zyncoders s' ! i) = max_value z
                \<and> zvalue (zyncoders s' ! i) = max_value z div of_nat ZYNCODER_TICKS_PER_RETENT"
    if s0: "step z = 0" and acc: "accepted_ticks (tsus z) ts"
      and r: "zyncoder_ticks i 1 0 ts s = Some s'"
      and sb: "subvalue z \<le> max_value z" and many: "M - unat (subvalue z) \<le> n"
    for s'
  proof -
    from zyncoder_ticks_velocity_up [OF r _ l _ _ _] s0 acc sb
    have a: "subvalue (zyncoders s' ! i) \<le> max_value z"
      and b: "min M (unat (subvalue z) + n) \<le> unat (subvalue (zyncoders s' ! i))"
      and c: "zvalue (zyncoders s' ! i)
                = subvalue (zyncoders s' ! i) div of_nat ZYNCODER_TICKS_PER_RETENT"
      using ne unfolding z M n by simp_all
    from many have "min M (unat (subvalue z) + n) = M" by simp
    with b have "M \<le> unat (subvalue (zyncoders s' ! i))" by simp
    with a have "subvalue (zyncoders s' ! i) = max_value z"
      unfolding M by (simp add: word_le_nat_alt word_unat_eq_iff)
    with c show ?thesis by simp
  qed
  have vel_down: "subvalue (zyncoders s' ! i) = 0 \<and> zvalue (zyncoders s' ! i) = 0"
    if s0: "step z = 0" and acc: "accepted_ticks (tsus z) ts"
      and r: "zyncoder_ticks i 0 1 ts s = Some s'" and many: "unat (subvalue z) \<le> n"
    for s'
  proof -
    from zyncoder_ticks_velocity_down [OF r _ l _ _] s0 acc
    have b: "unat (subvalue (zyncoders s' ! i)) \<le> unat (subvalue z) - n"
      and c: "zvalue (zyncoders s' ! i)
                = (subvalue (zyncoders s' ! i) + of_nat ZYNCODER_TICKS_PER_RETENT - 1)
                    div of_nat ZYNCODER_TICKS_PER_RETENT"
      using ne unfolding z n by simp_all
    from b many have "unat (subvalue (zyncoders s' ! i)) = 0" by simp
    then have e: "subvalue (zyncoders s' ! i) = 0" by (simp add: unat_eq_0)
    with c show ?thesis by (simp add: ZYNCODER_TICKS_PER_RETENT_def)
  qed
  from fixed vel_up vel_down show ?thesis by blast
qed


lemma slow_ticks_run:
  "\<exists>s'. zyncoder_ticks 0 1 0 [100000, 200000, 300000, 400000] slow_state = Some s'"
  by (simp add: zyncoder_advance_def tick_interval_def dtus_avg_of_def dsval_of_def
        velocity_subvalue_def velocity_value_def send_zyncoder_def emit_def
        MAX_NUM_ZYNCODERS_def slow_state_def slow_zyncoder_def ZYNCODER_TICKS_PER_RETENT_def
        Let_def)

theorem same_direction_ticks_saturate_witness:
  "(\<exists>s'. zyncoder_ticks 0 1 0 [0, 0, 0, 0, 0] coarse_state = Some s'
         \<and> unat (zvalue (zyncoders s' ! 0)) = 9)
   \<and> (\<exists>s'. zyncoder_ticks 0 1 0 [100000, 200000, 300000, 400000] slow_state = Some s'
         \<and> subvalue (zyncoders s' ! 0) = 8 \<and> zvalue (zyncoders s' ! 0) = 2)"
proof -
  have c: "0 < length (zyncoders coarse_state)" "[0, 0, 0, 0, 0 :: 64 word] \<noteq> []"
    "coarse_zyncoder = zyncoders coarse_state ! 0"
    "(0::nat) = min (unat (zvalue coarse_zyncoder)) (unat (max_value coarse_zyncoder))"
    "(3::nat) = unat (step coarse_zyncoder)" "(10::nat) = unat (max_value coarse_zyncoder)"
    "(5::nat) = length [0, 0, 0, 0, 0 :: 64 word]"
    by (simp_all add: coarse_state_def coarse_zyncoder_def)
  have cs: "step coarse_zyncoder \<noteq> 0" by (simp add: coarse_zyncoder_def)
  from same_direction_ticks_saturate [OF c] cs
  have 1: "\<exists>s'. zyncoder_ticks 0 1 0 [0, 0, 0, 0, 0] coarse_state = Some s'
         \<and> unat (zvalue (zyncoders s' ! 0)) = 9"
    by auto
  have v: "0 < length (zyncoders slow_state)" "[100000, 200000, 300000, 400000 :: 64 word] \<noteq> []"
    "slow_zyncoder = zyncoders slow_state ! 0"
    "(1::nat) = min (unat (zvalue slow_zyncoder)) (unat (max_value slow_zyncoder))"
    "(0::nat) = unat (step slow_zyncoder)" "(8::nat) = unat (max_value slow_zyncoder)"
    "(4::nat) = length [100000, 200000, 300000, 400000 :: 64 word]"
    by (simp_all add: slow_state_def slow_zyncoder_def)
  have vs: "step slow_zyncoder = 0" "subvalue slow_zyncoder \<le> max_value slow_zyncoder"
    "8 - unat (subvalue slow_zyncoder) \<le> (4::nat)"
    "accepted_ticks (tsus slow_zyncoder) [100000, 200000, 300000, 400000]"
    by (simp_all add: slow_zyncoder_def)
  from slow_ticks_run obtain s'
    where r: "zyncoder_ticks 0 1 0 [100000, 200000, 300000, 400000] slow_state = Some s'"
    by blast
  from same_direction_ticks_saturate [OF v] vs r
  have "subvalue (zyncoders s' ! 0) = 8 \<and> zvalue (zyncoders s' ! 0) = 2"
    by (simp add: slow_zyncoder_def ZYNCODER_TICKS_PER_RETENT_def)
  with r 1 show ?thesis by blast
qed

text \<open>
  Claim C5 as stated fails in fixed-step mode when \<open>step\<close> does not divide the distance to the
  bound: with \<open>step = 3\<close>, \<open>max_value = 10\<close> and \<open>value = 0\<close>, six Up ticks change the value
  three times (3, 6, 9) and leave it at 9, not at \<open>max_value\<close>.
\<close>
theorem saturation_counterexample:
  "zyncoder_ticks 0 1 0 [0, 0, 0, 0, 0, 0] coarse_state =
     Some (coarse_state\<lparr>zyncoders := [coarse_zyncoder\<lparr>zvalue := 9\<rparr>],
                         effects := [Internal_send_ccontrol_change 0 1 3,
                                     Internal_send_ccontrol_change 0 1 6,
                                     Internal_send_ccontrol_change 0 1 9]\<rparr>)
   \<and> max_value coarse_zyncoder = 10 \<and> step coarse_zyncoder = 3"
  by (simp add: zyncoder_advance_def fixed_step_value_def send_zyncoder_def emit_def
        MAX_NUM_ZYNCODERS_def coarse_state_def coarse_zyncoder_def Let_def word_le_nat_alt)


section \<open>The bound on the value\<close>

lemma div4_small: "unat ((x :: 32 word) div 4) < 2 ^ 30"
proof -
  have "unat x < 2 ^ 32" using unsigned_less [of x] by simp
  then show ?thesis by (simp add: unat_div)
qed

lemma encoder_ok_velocity:
  assumes ok: "encoder_ok m z" and st: "step z = 0" and d: "1 \<le> d"
    and sub: "sub = velocity_subvalue up down d z"
  shows "encoder_ok m (z\<lparr>dtus := r, subvalue := sub, tsus := t,
            zvalue := (case velocity_value up down sub of None \<Rightarrow> zvalue z | Some v \<Rightarrow> v)\<rparr>)"
proof -
  let ?v = "case velocity_value up down sub of None \<Rightarrow> zvalue z | Some v \<Rightarrow> v"
  from ok have zv: "zvalue z \<le> m" by (simp add: encoder_ok_def)
  from ok st consider
      (fits) "unat m * 4 < 2 ^ 32" "max_value z = 4 * m" "subvalue z \<le> max_value z"
    | (large) "2 ^ 30 \<le> unat m"
    by (auto simp: encoder_ok_def ZYNCODER_TICKS_PER_RETENT_def)
  then show ?thesis
  proof cases
    case fits
    have um: "unat (max_value z) = 4 * unat m"
      using fits(1) by (simp add: fits(2) unat_word_ariths)
    have sb: "sub \<le> max_value z \<and> ?v \<le> m"
    proof (cases "up \<noteq> 0")
      case True
      from velocity_subvalue_up [OF True d fits(3), of down]
      have a: "sub \<le> max_value z" by (simp add: sub)
      then have "unat sub \<le> 4 * unat m" by (simp add: word_le_nat_alt um)
      then have "unat (sub div 4) \<le> unat m" by (simp add: unat_div)
      then have "sub div 4 \<le> m" by (simp add: word_le_nat_alt)
      with a True show ?thesis
        by (simp add: velocity_value_def ZYNCODER_TICKS_PER_RETENT_def)
    next
      case up0: False
      show ?thesis
      proof (cases "down \<noteq> 0")
        case True
        from up0 velocity_subvalue_down [OF True d, of z]
        have "unat sub \<le> unat (subvalue z) - 1" by (simp add: sub)
        moreover have "unat (subvalue z) \<le> 4 * unat m"
          using fits(3) by (simp add: word_le_nat_alt um)
        ultimately have b: "unat sub \<le> 4 * unat m" by simp
        with fits(1) have "unat sub + 3 < 2 ^ 32" by simp
        then have "unat (sub + 3) = unat sub + 3"
          by (simp add: unat_word_ariths)
        then have "unat ((sub + 3) div 4) \<le> unat m" using b by (simp add: unat_div)
        then have "(sub + 3) div 4 \<le> m" by (simp add: word_le_nat_alt)
        then have c: "(3 + sub) div 4 \<le> m" by (simp add: add.commute)
        from b have "sub \<le> max_value z" by (simp add: word_le_nat_alt um)
        with c up0 True show ?thesis
          by (simp add: velocity_value_def ZYNCODER_TICKS_PER_RETENT_def)
      next
        case False
        with up0 fits(3) zv show ?thesis
          by (simp add: sub velocity_subvalue_def velocity_value_def)
      qed
    qed
    with fits st show ?thesis
      by (simp add: encoder_ok_def ZYNCODER_TICKS_PER_RETENT_def)
  next
    case large
    have "?v \<le> m"
    proof (cases "velocity_value up down sub")
      case None
      with zv show ?thesis by simp
    next
      case (Some v)
      then obtain x :: "32 word" where "v = x div 4"
        by (auto simp: velocity_value_def ZYNCODER_TICKS_PER_RETENT_def split: if_splits)
      with div4_small [of x] large have "unat v \<le> unat m" by simp
      with Some show ?thesis by (simp add: word_le_nat_alt)
    qed
    with large st show ?thesis by (simp add: encoder_ok_def)
  qed
qed

lemma encoder_ok_fixed:
  assumes ok: "encoder_ok m z" and st: "step z \<noteq> 0"
  shows "encoder_ok m (z\<lparr>zvalue := fixed_step_value up down z\<rparr>)"
  using assms fixed_step_value_le [of up down z] by (simp add: encoder_ok_def)

lemma encoder_ok_last_encoded:
  "encoder_ok m (z\<lparr>last_encoded := e\<rparr>) = encoder_ok m z"
  by (simp add: encoder_ok_def)

lemma zyncoder_advance_ok:
  assumes a: "zyncoder_advance i up down now s = Some s'" and l: "i < length (zyncoders s)"
    and ok: "encoder_ok m (zyncoders s ! i)"
  shows "\<exists>z'. zyncoders s' = (zyncoders s)[i := z'] \<and> encoder_ok m z'
              \<and> enabled z' = enabled (zyncoders s ! i)"
proof (cases "step (zyncoders s ! i) = 0")
  case True
  show ?thesis
  proof (cases "tick_interval now (zyncoders s ! i) < 1000")
    case d: True
    from zyncoder_advance_debounced [OF True d] a have "s' = s" by simp
    then show ?thesis using ok by (intro exI [of _ "zyncoders s ! i"]) simp
  next
    case d: False
    from dsval_of_bounds have b: "1 \<le> dsval_of x" for x by blast
    from zyncoder_advance_velocity [OF True d a refl refl]
      encoder_ok_velocity [OF ok True b refl]
    show ?thesis by (intro exI [of _ "zyncoders s' ! i"]) (simp add: l)
  qed
next
  case False
  from zyncoder_advance_fixed [OF False, of up down now] a encoder_ok_fixed [OF ok False]
  show ?thesis
    by (intro exI [of _ "zyncoders s' ! i"]) (auto simp: l)
qed


lemma bounds_ok_update:
  assumes "bounds_ok bound s" and "zyncoders s' = (zyncoders s)[i := z']"
    and "enabled z' \<longrightarrow> encoder_ok (bound i) z'"
  shows "bounds_ok bound s'"
  unfolding bounds_ok_def
proof (intro allI impI)
  fix k assume k: "k < length (zyncoders s')" and e: "enabled (zyncoders s' ! k)"
  show "encoder_ok (bound k) (zyncoders s' ! k)"
  proof (cases "k = i")
    case True
    with k e assms show ?thesis by simp
  next
    case False
    with k e assms show ?thesis by (simp add: bounds_ok_def)
  qed
qed

lemma bounds_ok_setup:
  assumes "bounds_ok bound s" and "zyncoders s' = (zyncoders s)[i := z']"
    and "encoder_ok m z'"
  shows "bounds_ok (bound(i := m)) s'"
  unfolding bounds_ok_def
proof (intro allI impI)
  fix k assume k: "k < length (zyncoders s')" and e: "enabled (zyncoders s' ! k)"
  show "encoder_ok ((bound(i := m)) k) (zyncoders s' ! k)"
  proof (cases "k = i")
    case True
    with k e assms show ?thesis by simp
  next
    case False
    with k e assms show ?thesis by (simp add: bounds_ok_def)
  qed
qed

lemma bounds_ok_init: "bounds_ok (\<lambda>i. 0) (init_zyncoder n m)"
  by (simp add: bounds_ok_def init_zyncoder_def zero_zyncoder_def)

lemma bounds_ok_advance:
  assumes b: "bounds_ok bound s" and l: "i < length (zyncoders s)"
    and en: "enabled (zyncoders s ! i)"
    and a: "zyncoder_advance i up down now
              (s\<lparr>zyncoders := (zyncoders s)[i := (zyncoders s ! i)\<lparr>last_encoded := e\<rparr>]\<rparr>) = Some s'"
  shows "bounds_ok bound s'"
proof -
  let ?s1 = "s\<lparr>zyncoders := (zyncoders s)[i := (zyncoders s ! i)\<lparr>last_encoded := e\<rparr>]\<rparr>"
  have l1: "i < length (zyncoders ?s1)" using l by simp
  have ok: "encoder_ok (bound i) (zyncoders ?s1 ! i)"
    using b l en by (simp add: bounds_ok_def encoder_ok_last_encoded)
  from zyncoder_advance_ok [OF a l1 ok] obtain z'
    where "zyncoders s' = (zyncoders s)[i := z']" and "encoder_ok (bound i) z'"
    by auto
  with b show ?thesis by (intro bounds_ok_update [of bound s s' i z']) simp_all
qed

lemma bounds_ok_update_zyncoder:
  assumes b: "bounds_ok bound s" and u: "update_zyncoder i MSB LSB now s = Some s'"
  shows "bounds_ok bound s'"
proof (cases "i < MAX_NUM_ZYNCODERS s \<and> enabled (zyncoders s ! i)")
  case True
  then have i: "i < MAX_NUM_ZYNCODERS s" and en: "enabled (zyncoders s ! i)" by simp_all
  from i have l: "i < length (zyncoders s)" by (simp add: MAX_NUM_ZYNCODERS_def)
  from u show ?thesis
    unfolding update_zyncoder_eq [OF i en] by (rule bounds_ok_advance [OF b l en])
next
  case False
  with u have "s' = s" by (auto simp: update_zyncoder_def Let_def split: if_splits)
  with b show ?thesis by simp
qed

lemma bounds_ok_update_zyncoder_uart:
  assumes b: "bounds_ok bound s" and u: "update_zyncoder_uart i data now s = Some s'"
  shows "bounds_ok bound s'"
proof (cases "i < MAX_NUM_ZYNCODERS s \<and> enabled (zyncoders s ! i)")
  case True
  then have i: "i < MAX_NUM_ZYNCODERS s" and en: "enabled (zyncoders s ! i)" by simp_all
  from i have l: "i < length (zyncoders s)" by (simp add: MAX_NUM_ZYNCODERS_def)
  have same: "s\<lparr>zyncoders := (zyncoders s)[i := (zyncoders s ! i)
                \<lparr>last_encoded := last_encoded (zyncoders s ! i)\<rparr>]\<rparr> = s"
    by simp
  from u have "zyncoder_advance i (payload_bit data (pin_b (zyncoders s ! i)))
                 (payload_bit data (pin_a (zyncoders s ! i))) now s = Some s'"
    unfolding update_zyncoder_uart_eq [OF i en] .
  then show ?thesis
    using bounds_ok_advance [OF b l en, of _ _ _ "last_encoded (zyncoders s ! i)" s']
    unfolding same by blast
next
  case False
  with u have "s' = s" by (auto simp: update_zyncoder_uart_def Let_def split: if_splits)
  with b show ?thesis by simp
qed


lemma encoder_ok_set_value:
  assumes ok: "encoder_ok m z"
  shows "encoder_ok m
           (if step z = 0 then
              let v4 = v * of_nat ZYNCODER_TICKS_PER_RETENT;
                  sub = (if v4 > max_value z then max_value z else v4)
              in z\<lparr>subvalue := sub, zvalue := sub div of_nat ZYNCODER_TICKS_PER_RETENT\<rparr>
            else if v > max_value z then z\<lparr>zvalue := max_value z\<rparr>
            else z\<lparr>zvalue := v\<rparr>)"
proof (cases "step z = 0")
  case True
  define sub where "sub = (if v * 4 > max_value z then max_value z else v * 4)"
  have sb: "sub \<le> max_value z" by (auto simp: sub_def)
  from ok True consider
      (fits) "unat m * 4 < 2 ^ 32" "max_value z = 4 * m"
    | (large) "2 ^ 30 \<le> unat m"
    by (auto simp: encoder_ok_def ZYNCODER_TICKS_PER_RETENT_def)
  then have "sub div 4 \<le> m"
  proof cases
    case fits
    have "unat (max_value z) = 4 * unat m"
      using fits(1) by (simp add: fits(2) unat_word_ariths)
    with sb have "unat sub \<le> 4 * unat m" by (simp add: word_le_nat_alt)
    then have "unat (sub div 4) \<le> unat m" by (simp add: unat_div)
    then show ?thesis by (simp add: word_le_nat_alt)
  next
    case large
    with div4_small [of sub] have "unat (sub div 4) \<le> unat m" by simp
    then show ?thesis by (simp add: word_le_nat_alt)
  qed
  with ok True sb show ?thesis
    by (auto simp: encoder_ok_def ZYNCODER_TICKS_PER_RETENT_def Let_def sub_def)
next
  case False
  with ok show ?thesis by (auto simp: encoder_ok_def)
qed

lemma bounds_ok_set_value:
  assumes b: "bounds_ok bound s"
  shows "bounds_ok bound (set_value_zyncoder i v send s)"
proof (cases "i < MAX_NUM_ZYNCODERS s \<and> enabled (zyncoders s ! i)")
  case True
  then have l: "i < length (zyncoders s)" and en: "enabled (zyncoders s ! i)"
    by (simp_all add: MAX_NUM_ZYNCODERS_def)
  let ?z = "zyncoders s ! i"
  let ?z1 = "if step ?z = 0 then
              let v4 = v * of_nat ZYNCODER_TICKS_PER_RETENT;
                  sub = (if v4 > max_value ?z then max_value ?z else v4)
              in ?z\<lparr>subvalue := sub, zvalue := sub div of_nat ZYNCODER_TICKS_PER_RETENT\<rparr>
            else if v > max_value ?z then ?z\<lparr>zvalue := max_value ?z\<rparr>
            else ?z\<lparr>zvalue := v\<rparr>"
  from b l en have ok: "encoder_ok (bound i) ?z" by (simp add: bounds_ok_def)
  have zs: "zyncoders (set_value_zyncoder i v send s) = (zyncoders s)[i := ?z1]"
    using True by (simp add: set_value_zyncoder_def Let_def)
  from encoder_ok_set_value [OF ok, of v]
  show ?thesis by (intro bounds_ok_update [OF b zs]) simp
next
  case False
  then have "set_value_zyncoder i v send s = s"
    by (auto simp: set_value_zyncoder_def Let_def)
  with b show ?thesis by simp
qed

lemma encoder_ok_midi:
  assumes ok: "encoder_ok m z" and v: "ucast (val :: 8 word) \<le> m"
  shows "encoder_ok m (z\<lparr>zvalue := ucast val,
                          subvalue := ucast val * of_nat ZYNCODER_TICKS_PER_RETENT\<rparr>)"
proof (cases "step z = 0 \<and> unat m * 4 < 2 ^ 32 \<and> max_value z = 4 * m")
  case True
  then have um: "unat (max_value z) = 4 * unat m" by (simp add: unat_word_ariths)
  have "unat (ucast val :: 32 word) < 256"
  proof -
    have "unat val < 2 ^ 8" using unsigned_less [of val] by simp
    moreover have "unat (ucast val :: 32 word) = unat val"
      by (simp add: unsigned_ucast_eq take_bit_nat_eq_self_iff) (use \<open>unat val < 2 ^ 8\<close> in simp)
    ultimately show ?thesis by simp
  qed
  then have "unat ((ucast val :: 32 word) * 4) = unat (ucast val :: 32 word) * 4"
    by (simp add: unat_word_ariths)
  moreover from v have "unat (ucast val :: 32 word) \<le> unat m" by (simp add: word_le_nat_alt)
  ultimately have "(ucast val :: 32 word) * 4 \<le> max_value z"
    by (simp add: word_le_nat_alt um)
  with ok v True show ?thesis
    by (simp add: encoder_ok_def ZYNCODER_TICKS_PER_RETENT_def)
next
  case False
  with ok v show ?thesis
    by (auto simp: encoder_ok_def ZYNCODER_TICKS_PER_RETENT_def)
qed

lemma bounds_ok_midi:
  assumes b: "bounds_ok bound s"
    and v: "\<forall>j < length (zyncoders s).
              enabled (zyncoders s ! j) \<and> midi_chan (zyncoders s ! j) = chan
                \<and> midi_ctrl (zyncoders s ! j) = ctrl \<longrightarrow> ucast val \<le> bound j"
  shows "bounds_ok bound (midi_event_zyncoders chan ctrl val s)"
  unfolding bounds_ok_def
proof (intro allI impI)
  fix k
  assume k: "k < length (zyncoders (midi_event_zyncoders chan ctrl val s))"
    and e: "enabled (zyncoders (midi_event_zyncoders chan ctrl val s) ! k)"
  from k have l: "k < length (zyncoders s)" by (simp add: midi_event_zyncoders_map)
  show "encoder_ok (bound k) (zyncoders (midi_event_zyncoders chan ctrl val s) ! k)"
  proof (cases "enabled (zyncoders s ! k) \<and> midi_chan (zyncoders s ! k) = chan
                  \<and> midi_ctrl (zyncoders s ! k) = ctrl")
    case True
    with b l have ok: "encoder_ok (bound k) (zyncoders s ! k)" by (simp add: bounds_ok_def)
    from v l True have "ucast val \<le> bound k" by blast
    from encoder_ok_midi [OF ok this] True l show ?thesis
      by (simp add: midi_event_zyncoders_map)
  next
    case False
    with l have same: "zyncoders (midi_event_zyncoders chan ctrl val s) ! k = zyncoders s ! k"
      by (auto simp: midi_event_zyncoders_map)
    with e b l show ?thesis by (simp add: bounds_ok_def)
  qed
qed

lemma bounds_ok_setup_zyncoder:
  assumes b: "bounds_ok bound s"
    and r: "setup_zyncoder i a b' chan ctrl osc v maxv stp s = Returns_entry j s'"
  shows "bounds_ok (bound(i := maxv)) s'"
proof -
  from r have l: "i < length (zyncoders s)"
    by (auto simp: setup_zyncoder_def MAX_NUM_ZYNCODERS_def split: if_splits)
  define v1 where "v1 = (if v > maxv then maxv else v)"
  have v1: "v1 \<le> maxv" by (auto simp: v1_def)
  from r l obtain z' where zs: "zyncoders s' = (zyncoders s)[i := z']"
    and f: "zvalue z' = v1" "step z' = stp"
      "stp = 0 \<longrightarrow> subvalue z' = 4 * v1 \<and> max_value z' = 4 * maxv"
      "stp \<noteq> 0 \<longrightarrow> max_value z' = maxv"
    by (auto simp: setup_zyncoder_def MAX_NUM_ZYNCODERS_def Let_def v1_def
          ZYNCODER_TICKS_PER_RETENT_def word_neq_0_conv [symmetric]
          split: if_splits osc_path_arg.splits)
  have "encoder_ok maxv z'"
  proof (cases "stp = 0")
    case True
    show ?thesis
    proof (cases "unat maxv * 4 < 2 ^ 32")
      case fits: True
      from v1 have "unat v1 \<le> unat maxv" by (simp add: word_le_nat_alt)
      with fits have "unat (4 * v1) = 4 * unat v1" "unat (4 * maxv) = 4 * unat maxv"
        by (simp_all add: unat_word_ariths)
      with \<open>unat v1 \<le> unat maxv\<close> have "4 * v1 \<le> 4 * maxv" by (simp add: word_le_nat_alt)
      with True f v1 fits show ?thesis
        by (simp add: encoder_ok_def ZYNCODER_TICKS_PER_RETENT_def)
    next
      case False
      have "unat maxv < 2 ^ 32" using unsigned_less [of maxv] by simp
      with False have "2 ^ 30 \<le> unat maxv" by simp
      with True f v1 show ?thesis by (simp add: encoder_ok_def)
    qed
  next
    case False
    with f v1 show ?thesis by (simp add: encoder_ok_def)
  qed
  with b zs show ?thesis by (rule bounds_ok_setup)
qed


lemma setup_fixed_state:
  "setup_zyncoder 0 0 1 0 1 Osc_path_NULL 5 10 1 (init_zyncoder 1 0) = Returns_entry 0 fixed_state"
proof -
  have r: "replicate 4 (0 :: 32 word) = [0, 0, 0, 0]" by (simp add: numeral_eq_Suc)
  show ?thesis
    by (simp add: setup_zyncoder_def init_zyncoder_def zero_zyncoder_def fixed_state_def
          fixed_zyncoder_def MAX_NUM_ZYNCODERS_def ZYNCODER_TICKS_PER_RETENT_def Let_def r
          word_less_nat_alt)
qed

lemma reachable_bounds_ok: "reachable bound s \<Longrightarrow> bounds_ok bound s"
proof (induction rule: reachable.induct)
  case (reach_init n_zyncoders n_zynswitches)
  show ?case by (rule bounds_ok_init)
next
  case (reach_setup bound s i a b chan ctrl osc v maxv stp j s')
  from reach_setup.IH reach_setup.hyps(2) show ?case by (rule bounds_ok_setup_zyncoder)
next
  case (reach_setup_null bound s i a b chan ctrl osc v maxv stp s')
  from reach_setup_null.hyps(2) have "zyncoders s' = zyncoders s"
    by (auto simp: setup_zyncoder_def emit_def Let_def split: if_splits)
  with reach_setup_null.IH show ?case by (simp add: bounds_ok_def)
next
  case (reach_tick bound s i MSB LSB now s')
  from reach_tick.IH reach_tick.hyps(2) show ?case by (rule bounds_ok_update_zyncoder)
next
  case (reach_tick_uart bound s i data now s')
  from reach_tick_uart.IH reach_tick_uart.hyps(2) show ?case
    by (rule bounds_ok_update_zyncoder_uart)
next
  case (reach_set_value bound s i v send)
  from reach_set_value.IH show ?case by (rule bounds_ok_set_value)
next
  case (reach_midi bound s chan ctrl val)
  from reach_midi.IH reach_midi.hyps(2) show ?case by (rule bounds_ok_midi)
qed

text \<open>
  Claim C1, as the code has it. In every state reachable from \<open>init_zyncoder\<close> through
  \<open>setup_zyncoder\<close>, encoder ticks (\<open>update_zyncoder\<close> in either build), programmatic sets
  (\<open>set_value_zyncoder\<close>) and inbound MIDI events (\<open>midi_event_zyncoders\<close>) whose value does
  not exceed the configured bound of the encoders they address, every enabled encoder has
  \<open>0 \<le> value \<le> max_value\<close>, where \<open>max_value\<close> is the bound configured by the last
  \<open>setup_zyncoder\<close> call for that encoder.
\<close>
theorem value_within_configured_bound:
  assumes "reachable bound s" and "i < length (zyncoders s)" and "enabled (zyncoders s ! i)"
  shows "0 \<le> zvalue (zyncoders s ! i) \<and> zvalue (zyncoders s ! i) \<le> bound i"
proof -
  from assms(1) have "bounds_ok bound s" by (rule reachable_bounds_ok)
  with assms(2,3) have "encoder_ok (bound i) (zyncoders s ! i)" by (simp add: bounds_ok_def)
  then show ?thesis by (simp add: encoder_ok_def)
qed

theorem value_within_configured_bound_witness:
  "zvalue (zyncoders (midi_event_zyncoders 0 1 7 fixed_state) ! 0) \<le> 10
   \<and> zvalue (zyncoders (midi_event_zyncoders 0 1 7 fixed_state) ! 0) = 7"
proof -
  have "reachable ((\<lambda>i. 0)(0 := 10)) fixed_state"
    by (rule reach_setup [OF reach_init setup_fixed_state])
  then have r: "reachable ((\<lambda>i. 0)(0 := 10)) (midi_event_zyncoders 0 1 7 fixed_state)"
    by (rule reach_midi) (simp add: fixed_state_def word_le_nat_alt)
  have e: "0 < length (zyncoders (midi_event_zyncoders 0 1 7 fixed_state))"
    "enabled (zyncoders (midi_event_zyncoders 0 1 7 fixed_state) ! 0)"
    "zvalue (zyncoders (midi_event_zyncoders 0 1 7 fixed_state) ! 0) = 7"
    by (simp_all add: midi_event_zyncoders_map fixed_state_def fixed_zyncoder_def)
  from value_within_configured_bound [OF r e(1,2)] e(3) show ?thesis by simp
qed

text \<open>
  Claim C1 as stated fails on inbound MIDI: \<open>midi_event_zyncoders\<close> stores the received value
  without comparing it to \<open>max_value\<close>. After \<open>setup_zyncoder(0, 0, 1, 0, 1, NULL, 5, 10, 1)\<close>
  the event \<open>midi_event_zyncoders(0, 1, 127)\<close> leaves the enabled encoder with
  \<open>value = 127\<close> and \<open>max_value = 10\<close>.
\<close>
theorem value_bound_counterexample:
  "setup_zyncoder 0 0 1 0 1 Osc_path_NULL 5 10 1 (init_zyncoder 1 0) = Returns_entry 0 fixed_state
   \<and> enabled (zyncoders (midi_event_zyncoders 0 1 127 fixed_state) ! 0)
   \<and> zvalue (zyncoders (midi_event_zyncoders 0 1 127 fixed_state) ! 0) = 127
   \<and> max_value (zyncoders (midi_event_zyncoders 0 1 127 fixed_state) ! 0) = 10
   \<and> \<not> zvalue (zyncoders (midi_event_zyncoders 0 1 127 fixed_state) ! 0)
         \<le> max_value (zyncoders (midi_event_zyncoders 0 1 127 fixed_state) ! 0)"
  using setup_fixed_state
  by (simp add: midi_event_zyncoders_map fixed_state_def fixed_zyncoder_def word_le_nat_alt)


section \<open>Indices outside the arrays\<close>

text \<open>
  Claim C3, as the code has it. For an index \<open>i\<close> at or above \<open>MAX_NUM_ZYNSWITCHES\<close>,
  \<open>setup_zynswitch\<close> and \<open>setup_zynswitch_midi\<close> print the message and return the null pointer
  resp. 0; for an index above \<open>MAX_NUM_ZYNCODERS\<close>, \<open>setup_zyncoder\<close> prints the message and
  returns the null pointer; the queries \<open>get_value_zyncoder\<close> and \<open>get_zynswitch_dtus\<close> return 0
  for an index at or above the capacity and print nothing. In each case the encoder and switch
  arrays are unchanged: the only effect is the printed message, where there is one. (The index
  equal to \<open>MAX_NUM_ZYNCODERS\<close> is not covered for \<open>setup_zyncoder\<close>.)
\<close>
theorem out_of_bounds_index:
  "(MAX_NUM_ZYNCODERS s < i \<longrightarrow>
      setup_zyncoder i a b chan ctrl osc v maxv stp s
        = Returns_NULL (emit Printf_max_zyncoders s))
   \<and> (MAX_NUM_ZYNCODERS s \<le> i \<longrightarrow> get_value_zyncoder i s = 0)
   \<and> (MAX_NUM_ZYNSWITCHES s \<le> i \<longrightarrow>
        setup_zynswitch i pin s = Returns_NULL (emit Printf_max_zynswitches s)
      \<and> setup_zynswitch_midi i evt chan num val s = (0, emit Printf_max_zynswitches s)
      \<and> get_zynswitch_dtus i long_dtus now s = (0, s))
   \<and> zyncoders (emit e s) = zyncoders s
   \<and> zynswitches (emit e s) = zynswitches s
   \<and> effects (emit e s) = effects s @ [e]"
  by (simp add: setup_zyncoder_def get_value_zyncoder_def setup_zynswitch_def
        setup_zynswitch_midi_def get_zynswitch_dtus_def emit_def)

theorem out_of_bounds_index_witness:
  "setup_zyncoder 5 0 1 0 1 Osc_path_NULL 5 10 1 (init_zyncoder 4 8)
     = Returns_NULL (emit Printf_max_zyncoders (init_zyncoder 4 8))
   \<and> get_value_zyncoder 4 (init_zyncoder 4 8) = 0
   \<and> setup_zynswitch 8 3 (init_zyncoder 4 8)
       = Returns_NULL (emit Printf_max_zynswitches (init_zyncoder 4 8))
   \<and> setup_zynswitch_midi 8 NOTE_ON 0 60 100 (init_zyncoder 4 8)
       = (0, emit Printf_max_zynswitches (init_zyncoder 4 8))
   \<and> get_zynswitch_dtus 8 1000000 0 (init_zyncoder 4 8) = (0, init_zyncoder 4 8)
   \<and> zyncoders (emit Printf_max_zyncoders (init_zyncoder 4 8)) = zyncoders (init_zyncoder 4 8)"
proof -
  have h: "MAX_NUM_ZYNCODERS (init_zyncoder 4 8) < 5" "MAX_NUM_ZYNCODERS (init_zyncoder 4 8) \<le> 4"
    "MAX_NUM_ZYNSWITCHES (init_zyncoder 4 8) \<le> 8"
    by (simp_all add: MAX_NUM_ZYNCODERS_def MAX_NUM_ZYNSWITCHES_def init_zyncoder_def)
  note t = out_of_bounds_index [where s = "init_zyncoder 4 8"]
  from t [where i = 5] t [where i = 4] t [where i = 8] h
  show ?thesis by simp
qed

text \<open>
  Claim C3 as stated fails in two ways. With four encoders, \<open>setup_zyncoder(4, ...)\<close> passes
  the test \<open>i > MAX_NUM_ZYNCODERS\<close> and stores through \<open>zyncoders + 4\<close>, past the end of the
  array, instead of returning the null pointer. And the query \<open>get_zynswitch_dtus(8, ...)\<close> with
  eight switches returns 0 without printing anything: the trace of effects stays empty.
\<close>
theorem out_of_bounds_counterexample:
  "MAX_NUM_ZYNCODERS (init_zyncoder 4 8) = 4
   \<and> setup_zyncoder 4 0 1 0 1 Osc_path_NULL 5 10 1 (init_zyncoder 4 8) = Writes_past_array
   \<and> MAX_NUM_ZYNSWITCHES (init_zyncoder 4 8) = 8
   \<and> get_zynswitch_dtus 8 1000000 0 (init_zyncoder 4 8) = (0, init_zyncoder 4 8)
   \<and> effects (init_zyncoder 4 8) = []"
  by (simp add: setup_zyncoder_def get_zynswitch_dtus_def MAX_NUM_ZYNCODERS_def
        MAX_NUM_ZYNSWITCHES_def init_zyncoder_def)


section \<open>Switch scans\<close>

lemma emit_zynswitches [simp]: "zynswitches (emit e s) = zynswitches s"
  by (simp add: emit_def)

lemma emit_zyncoders [simp]: "zyncoders (emit e s) = zyncoders s"
  by (simp add: emit_def)

lemma midi_event_zyncoders_zynswitches [simp]:
  "zynswitches (midi_event_zyncoders chan ctrl val s) = zynswitches s"
  by (simp add: midi_event_zyncoders_map)

lemma send_zynswitch_midi_zynswitches [simp]:
  "zynswitches (send_zynswitch_midi i status s) = zynswitches s"
  by (simp add: send_zynswitch_midi_def Let_def)

lemma upd_zynswitch_zynswitches [simp]:
  "zynswitches (upd_zynswitch i f s) = (zynswitches s)[i := f (zynswitches s ! i)]"
  by (simp add: upd_zynswitch_def)

text \<open>A loop body that touches only entry \<open>k\<close> of the switch array in iteration \<open>k\<close>.\<close>
lemma run_loop_frame:
  fixes body :: "nat \<Rightarrow> zynstate \<Rightarrow> zynstate loop_step"
  assumes body: "\<And>k s r. body k s = r \<Longrightarrow>
                   \<exists>s' w. (r = Continue s' \<or> r = Return s')
                          \<and> zynswitches s' = (zynswitches s)[k := w]"
    and j: "j \<notin> set ks"
  shows "length (zynswitches (run_loop body ks s)) = length (zynswitches s)
       \<and> zynswitches (run_loop body ks s) ! j = zynswitches s ! j"
  using j
proof (induction ks arbitrary: s)
  case Nil
  then show ?case by simp
next
  case (Cons k ks)
  from body [OF refl, of k s] obtain s' w
    where r: "body k s = Continue s' \<or> body k s = Return s'"
      and z: "zynswitches s' = (zynswitches s)[k := w]"
    by blast
  from Cons.prems have kj: "k \<noteq> j" and jn: "j \<notin> set ks" by simp_all
  from z kj have same: "length (zynswitches s') = length (zynswitches s)"
    "zynswitches s' ! j = zynswitches s ! j"
    by simp_all
  from r show ?case
  proof
    assume "body k s = Continue s'"
    with Cons.IH [OF jn, of s'] same show ?thesis by simp
  next
    assume "body k s = Return s'"
    with same show ?thesis by simp
  qed
qed

lemma run_loop_stops:
  assumes stop: "\<And>s. P s \<Longrightarrow> \<exists>s'. body i s = Return s'"
    and keep: "\<And>k s s'. k \<in> set ks \<Longrightarrow> P s \<Longrightarrow> body k s = Continue s' \<Longrightarrow> P s'"
    and p: "P s"
  shows "run_loop body (ks @ i # later) s = run_loop body (ks @ [i]) s"
  using keep p
proof (induction ks arbitrary: s)
  case Nil
  from stop [OF Nil.prems(2)] show ?case by auto
next
  case (Cons k ks)
  show ?case
  proof (cases "body k s")
    case (Continue s')
    from Cons.prems(1) [of k s s'] Cons.prems(2) Continue have p': "P s'" by simp
    have "run_loop body (ks @ i # later) s' = run_loop body (ks @ [i]) s'"
      by (rule Cons.IH [OF _ p']) (use Cons.prems(1) in auto)
    with Continue show ?thesis by simp
  next
    case (Return s')
    then show ?thesis by simp
  qed
qed

lemma list_update_self_ex: "\<exists>w. xs = xs[k := w]"
  by (rule exI [of _ "xs ! k"]) simp

lemma update_zynswitches_body_shape:
  "update_zynswitches_body data now k s = r \<Longrightarrow>
     \<exists>s' w. (r = Continue s' \<or> r = Return s') \<and> zynswitches s' = (zynswitches s)[k := w]"
  unfolding update_zynswitches_body_def Let_def
  by (auto split: if_splits simp: list_update_self_ex)

lemma update_expanded_zynswitches_body_shape:
  "update_expanded_zynswitches_body digitalRead now k s = r \<Longrightarrow>
     \<exists>s' w. (r = Continue s' \<or> r = Return s') \<and> zynswitches s' = (zynswitches s)[k := w]"
  unfolding update_expanded_zynswitches_body_def Let_def
  by (auto split: if_splits simp: list_update_self_ex)


lemma upt_split:
  assumes "i < n"
  shows "[0..<n] = [0..<i] @ i # [Suc i..<n]"
proof -
  have "[0..<i + (n - i)] = [0..<i] @ [i..<i + (n - i)]" by (rule upt_add_eq_append) simp
  with assms have "[0..<n] = [0..<i] @ [i..<n]" by simp
  with assms show ?thesis by (simp add: upt_conv_Cons)
qed

lemma run_loop_untouched:
  fixes body :: "nat \<Rightarrow> zynstate \<Rightarrow> zynstate loop_step"
  assumes body: "\<And>k s r. body k s = r \<Longrightarrow>
                   \<exists>s' w. (r = Continue s' \<or> r = Return s')
                          \<and> zynswitches s' = (zynswitches s)[k := w]"
  shows "drop n (zynswitches (run_loop body [0..<n] s)) = drop n (zynswitches s)"
proof (rule nth_equalityI)
  show "length (drop n (zynswitches (run_loop body [0..<n] s))) = length (drop n (zynswitches s))"
    using run_loop_frame [OF body, where j = n and ks = "[0..<n]" and s = s] by simp
next
  fix j assume "j < length (drop n (zynswitches (run_loop body [0..<n] s)))"
  then have "n + j < length (zynswitches (run_loop body [0..<n] s))" by simp
  moreover have "n + j \<notin> set [0..<n]" by simp
  note run_loop_frame [OF body this, where s = s]
  ultimately show "drop n (zynswitches (run_loop body [0..<n] s)) ! j = drop n (zynswitches s) ! j"
    by simp
qed

lemma run_loop_early_return:
  fixes body :: "nat \<Rightarrow> zynstate \<Rightarrow> zynstate loop_step"
  assumes body: "\<And>k s r. body k s = r \<Longrightarrow>
                   \<exists>s' w. (r = Continue s' \<or> r = Return s')
                          \<and> zynswitches s' = (zynswitches s)[k := w]"
    and stop: "\<And>s'. zynswitches s' ! i = zynswitches s ! i \<Longrightarrow> \<exists>s''. body i s' = Return s''"
    and i: "i < n"
  shows "run_loop body [0..<n] s = run_loop body [0..<Suc i] s
       \<and> drop (Suc i) (zynswitches (run_loop body [0..<n] s)) = drop (Suc i) (zynswitches s)"
proof -
  have "run_loop body ([0..<i] @ i # [Suc i..<n]) s = run_loop body ([0..<i] @ [i]) s"
  proof (rule run_loop_stops [where P = "\<lambda>s'. zynswitches s' ! i = zynswitches s ! i"])
    fix s' :: zynstate assume "zynswitches s' ! i = zynswitches s ! i"
    then show "\<exists>s''. body i s' = Return s''" by (rule stop)
  next
    fix k and s' s'' :: zynstate
    assume k: "k \<in> set [0..<i]" and p: "zynswitches s' ! i = zynswitches s ! i"
      and c: "body k s' = Continue s''"
    from body [OF c] obtain w where "zynswitches s'' = (zynswitches s')[k := w]" by auto
    with k p show "zynswitches s'' ! i = zynswitches s ! i" by simp
  next
    show "zynswitches s ! i = zynswitches s ! i" by simp
  qed
  then have e: "run_loop body [0..<n] s = run_loop body [0..<Suc i] s"
    using upt_split [OF i] by simp
  from run_loop_untouched [OF body, where n = "Suc i" and s = s] e show ?thesis by simp
qed

lemma update_zynswitches_body_returns:
  assumes "sw_enabled (zynswitches s ! i)"
    and "payload_bit data (sw_pin (zynswitches s ! i)) = 0"
    and "sw_status (zynswitches s ! i) \<noteq> 0"
    and "sw_tsus (zynswitches s ! i) > 0"
    and "(ucast (now - sw_tsus (zynswitches s ! i)) :: 32 word) < 1000"
  shows "\<exists>s''. update_zynswitches_body data now i s = Return s''"
  using assms by (simp add: update_zynswitches_body_def Let_def)

lemma update_expanded_zynswitches_body_returns:
  assumes "sw_enabled (zynswitches s ! i)"
    and "\<not> sw_pin (zynswitches s ! i) < 100"
    and "digitalRead (sw_pin (zynswitches s ! i)) = 1"
    and "sw_status (zynswitches s ! i) \<noteq> 1"
    and "sw_tsus (zynswitches s ! i) > 0"
    and "(ucast (now - sw_tsus (zynswitches s ! i)) :: 32 word) < 1000"
  shows "\<exists>s''. update_expanded_zynswitches_body digitalRead now i s = Return s''"
  using assms by (simp add: update_expanded_zynswitches_body_def Let_def)

text \<open>
  Claim C10. In the two bulk scans, a switch \<open>i\<close> that is enabled, holds the time stamp of a
  press (\<open>tsus > 0\<close>) less than 1000 microseconds old and is seen at its release level (level 0
  in the payload for \<open>update_zynswitches\<close>, level 1 on an expander pin for
  \<open>update_expanded_zynswitches\<close>) ends the scan: the whole call equals the scan of the switches
  \<open>0 .. i\<close> alone, so no switch above \<open>i\<close> is examined, no MIDI event is sent for one, and the
  entries of the switch array above \<open>i\<close> (status, tsus, dtus and all other fields) are the ones
  the call started with, whatever levels the snapshot holds for them.
\<close>
theorem bulk_scan_early_return:
  assumes i: "i < MAX_NUM_ZYNSWITCHES s" and w: "w = zynswitches s ! i"
    and en: "sw_enabled w" and ts: "sw_tsus w > 0"
    and short: "(ucast (now - sw_tsus w) :: 32 word) < 1000"
  shows "(payload_bit data (sw_pin w) = 0 \<and> sw_status w \<noteq> 0 \<longrightarrow>
            update_zynswitches data now s
              = run_loop (update_zynswitches_body data now) [0..<Suc i] s
          \<and> drop (Suc i) (zynswitches (update_zynswitches data now s))
              = drop (Suc i) (zynswitches s))
       \<and> (\<not> sw_pin w < 100 \<and> digitalRead (sw_pin w) = 1 \<and> sw_status w \<noteq> 1 \<longrightarrow>
            update_expanded_zynswitches digitalRead now s
              = run_loop (update_expanded_zynswitches_body digitalRead now) [0..<Suc i] s
          \<and> drop (Suc i) (zynswitches (update_expanded_zynswitches digitalRead now s))
              = drop (Suc i) (zynswitches s))"
proof (intro conjI impI)
  assume a: "payload_bit data (sw_pin w) = 0 \<and> sw_status w \<noteq> 0"
  have "run_loop (update_zynswitches_body data now) [0..<MAX_NUM_ZYNSWITCHES s] s
          = run_loop (update_zynswitches_body data now) [0..<Suc i] s
        \<and> drop (Suc i) (zynswitches
              (run_loop (update_zynswitches_body data now) [0..<MAX_NUM_ZYNSWITCHES s] s))
            = drop (Suc i) (zynswitches s)"
  proof (rule run_loop_early_return [OF update_zynswitches_body_shape _ i])
    fix s' :: zynstate assume "zynswitches s' ! i = zynswitches s ! i"
    with a en ts short w show "\<exists>s''. update_zynswitches_body data now i s' = Return s''"
      by (intro update_zynswitches_body_returns) simp_all
  qed
  then show "update_zynswitches data now s
              = run_loop (update_zynswitches_body data now) [0..<Suc i] s"
    and "drop (Suc i) (zynswitches (update_zynswitches data now s))
              = drop (Suc i) (zynswitches s)"
    unfolding update_zynswitches_def by blast+
next
  assume a: "\<not> sw_pin w < 100 \<and> digitalRead (sw_pin w) = 1 \<and> sw_status w \<noteq> 1"
  have "run_loop (update_expanded_zynswitches_body digitalRead now) [0..<MAX_NUM_ZYNSWITCHES s] s
          = run_loop (update_expanded_zynswitches_body digitalRead now) [0..<Suc i] s
        \<and> drop (Suc i) (zynswitches
              (run_loop (update_expanded_zynswitches_body digitalRead now)
                 [0..<MAX_NUM_ZYNSWITCHES s] s))
            = drop (Suc i) (zynswitches s)"
  proof (rule run_loop_early_return [OF update_expanded_zynswitches_body_shape _ i])
    fix s' :: zynstate assume "zynswitches s' ! i = zynswitches s ! i"
    with a en ts short w
    show "\<exists>s''. update_expanded_zynswitches_body digitalRead now i s' = Return s''"
      by (intro update_expanded_zynswitches_body_returns) simp_all
  qed
  then show "update_expanded_zynswitches digitalRead now s
              = run_loop (update_expanded_zynswitches_body digitalRead now) [0..<Suc i] s"
    and "drop (Suc i) (zynswitches (update_expanded_zynswitches digitalRead now s))
              = drop (Suc i) (zynswitches s)"
    unfolding update_expanded_zynswitches_def by blast+
qed


lemma frame_bits:
  "payload_bit frame_press 0 = 1" "payload_bit frame_press 3 = 0"
  "payload_bit frame_release 0 = 0" "payload_bit frame_release 3 = 1"
  by (simp_all add: payload_bit_def frame_press_def frame_release_def payload_data_def
        PAYLOAD_SIZE_BYTES_def)

lemma first_frame:
  "update_zynswitches frame_press 5000 released_state = pressed_state"
  by (simp add: update_zynswitches_def update_zynswitches_body_def send_zynswitch_midi_def
        upd_zynswitch_def emit_def MAX_NUM_ZYNSWITCHES_def released_state_def pressed_state_def
        note_zynswitch_def frame_bits Let_def upt_rec)

lemma second_frame:
  "update_zynswitches frame_release 4294972796 pressed_state =
     pressed_state\<lparr>zynswitches := [(note_zynswitch 0 60)\<lparr>sw_status := 0, sw_tsus := 0\<rparr>,
                                       note_zynswitch 3 62],
                    effects := [Internal_send_note_off 0 60 0, Write_zynmidi_note_off 0 60 0,
                                Internal_send_note_on 0 60 100, Write_zynmidi_note_on 0 60 100]\<rparr>"
  by (simp add: update_zynswitches_def update_zynswitches_body_def send_zynswitch_midi_def
        upd_zynswitch_def emit_def MAX_NUM_ZYNSWITCHES_def pressed_state_def
        note_zynswitch_def frame_bits Let_def upt_rec)

theorem bulk_scan_early_return_witness:
  "update_zynswitches frame_release 4294972796 pressed_state
     = run_loop (update_zynswitches_body frame_release 4294972796) [0..<Suc 0] pressed_state
   \<and> drop (Suc 0) (zynswitches (update_zynswitches frame_release 4294972796 pressed_state))
       = [note_zynswitch 3 62]
   \<and> update_expanded_zynswitches (\<lambda>pin. 1) 4294972796 expander_state
       = run_loop (update_expanded_zynswitches_body (\<lambda>pin. 1) 4294972796) [0..<Suc 0]
           expander_state
   \<and> drop (Suc 0) (zynswitches (update_expanded_zynswitches (\<lambda>pin. 1) 4294972796 expander_state))
       = [note_zynswitch 101 62]"
proof -
  have u: "0 < MAX_NUM_ZYNSWITCHES pressed_state"
    "(note_zynswitch 0 60)\<lparr>sw_status := 1, sw_tsus := 5000\<rparr> = zynswitches pressed_state ! 0"
    "sw_enabled ((note_zynswitch 0 60)\<lparr>sw_status := 1, sw_tsus := 5000\<rparr>)"
    "sw_tsus ((note_zynswitch 0 60)\<lparr>sw_status := 1, sw_tsus := 5000\<rparr>) > 0"
    "(ucast (4294972796 - sw_tsus ((note_zynswitch 0 60)\<lparr>sw_status := 1, sw_tsus := 5000\<rparr>))
        :: 32 word) < 1000"
    by (simp_all add: MAX_NUM_ZYNSWITCHES_def pressed_state_def note_zynswitch_def)
  have ul: "payload_bit frame_release (sw_pin ((note_zynswitch 0 60)\<lparr>sw_status := 1, sw_tsus := 5000\<rparr>)) = 0"
    "sw_status ((note_zynswitch 0 60)\<lparr>sw_status := 1, sw_tsus := 5000\<rparr>) \<noteq> 0"
    by (simp_all add: note_zynswitch_def frame_bits)
  have e: "0 < MAX_NUM_ZYNSWITCHES expander_state"
    "(note_zynswitch 100 60)\<lparr>sw_tsus := 5000\<rparr> = zynswitches expander_state ! 0"
    "sw_enabled ((note_zynswitch 100 60)\<lparr>sw_tsus := 5000\<rparr>)"
    "sw_tsus ((note_zynswitch 100 60)\<lparr>sw_tsus := 5000\<rparr>) > 0"
    "(ucast (4294972796 - sw_tsus ((note_zynswitch 100 60)\<lparr>sw_tsus := 5000\<rparr>)) :: 32 word) < 1000"
    by (simp_all add: MAX_NUM_ZYNSWITCHES_def expander_state_def note_zynswitch_def)
  have el: "\<not> sw_pin ((note_zynswitch 100 60)\<lparr>sw_tsus := 5000\<rparr>) < 100"
    "sw_status ((note_zynswitch 100 60)\<lparr>sw_tsus := 5000\<rparr>) \<noteq> 1"
    by (simp_all add: note_zynswitch_def)
  from bulk_scan_early_return [OF u, of frame_release "\<lambda>pin. 1"] ul
  have 1: "update_zynswitches frame_release 4294972796 pressed_state
     = run_loop (update_zynswitches_body frame_release 4294972796) [0..<Suc 0] pressed_state"
    "drop (Suc 0) (zynswitches (update_zynswitches frame_release 4294972796 pressed_state))
       = drop (Suc 0) (zynswitches pressed_state)"
    by blast+
  from bulk_scan_early_return [OF e, of frame_release "\<lambda>pin. 1"] el
  have 2: "update_expanded_zynswitches (\<lambda>pin. 1) 4294972796 expander_state
       = run_loop (update_expanded_zynswitches_body (\<lambda>pin. 1) 4294972796) [0..<Suc 0]
           expander_state"
    "drop (Suc 0) (zynswitches (update_expanded_zynswitches (\<lambda>pin. 1) 4294972796 expander_state))
       = drop (Suc 0) (zynswitches expander_state)"
    by blast+
  have d: "drop (Suc 0) (zynswitches pressed_state) = [note_zynswitch 3 62]"
    "drop (Suc 0) (zynswitches expander_state) = [note_zynswitch 101 62]"
    by (simp_all add: pressed_state_def expander_state_def)
  from 1 2 show ?thesis unfolding d by blast
qed

section \<open>The per-switch state machine\<close>

lemma update_zynswitch_status:
  assumes "i < MAX_NUM_ZYNSWITCHES s" and "sw_enabled (zynswitches s ! i)"
  shows "sw_status (zynswitches (update_zynswitch i status now s) ! i) = status"
  using assms by (auto simp: update_zynswitch_def MAX_NUM_ZYNSWITCHES_def Let_def)

lemma update_zynswitch_dtus:
  assumes "i < MAX_NUM_ZYNSWITCHES s"
    and "sw_dtus (zynswitches s ! i) = 0 \<or> 1000 \<le> sw_dtus (zynswitches s ! i)"
  shows "sw_dtus (zynswitches (update_zynswitch i status now s) ! i) = 0
       \<or> 1000 \<le> sw_dtus (zynswitches (update_zynswitch i status now s) ! i)"
  using assms by (auto simp: update_zynswitch_def MAX_NUM_ZYNSWITCHES_def Let_def not_less)

lemma get_zynswitch_dtus_once:
  assumes "i < MAX_NUM_ZYNSWITCHES s" and "sw_dtus (zynswitches s ! i) > 0"
  shows "fst (get_zynswitch_dtus i long_dtus now s) = sw_dtus (zynswitches s ! i)
       \<and> sw_dtus (zynswitches (snd (get_zynswitch_dtus i long_dtus now s)) ! i) = 0"
  using assms by (simp add: get_zynswitch_dtus_def MAX_NUM_ZYNSWITCHES_def Let_def)

text \<open>
  Claim C8 on the bulk scan of the UART build. Two switches are set up; the frame
  \<open>EA 01 00 FB\<close>, processed at clock reading 5000, puts switch 0 at level 1 and stores its time
  stamp. The frame \<open>EA 08 00 FB\<close> is processed \<open>2^32 + 500\<close> microseconds later, so the 32-bit
  interval is 500: switch 0 is back at level 0 and the frame holds level 1 for switch 1 (bit 3).
  The scan returns at switch 0. Switch 1 keeps status 0, although the level observed for it is
  1, and no MIDI event is sent for its note 62.
\<close>
theorem stale_status_after_short_release:
  "update_zynswitches frame_press 5000 released_state = pressed_state
   \<and> payload_bit frame_release (sw_pin (zynswitches pressed_state ! 1)) = 1
   \<and> sw_enabled (zynswitches pressed_state ! 1)
   \<and> sw_status (zynswitches (update_zynswitches frame_release 4294972796 pressed_state) ! 1) = 0
   \<and> effects (update_zynswitches frame_release 4294972796 pressed_state)
       = [Internal_send_note_off 0 60 0, Write_zynmidi_note_off 0 60 0,
          Internal_send_note_on 0 60 100, Write_zynmidi_note_on 0 60 100]"
  unfolding first_frame second_frame
  by (simp add: pressed_state_def note_zynswitch_def frame_bits)


section \<open>The serial frame\<close>

lemma upt_4: "[0..<4] = [0, 1, 2, Suc 2]"
  by (simp add: upt_rec numeral_eq_Suc)

lemma uart_window_full:
  assumes wf: "uart_wf u" and n: "elementsInBuffer u = BUFFER_SIZE_BYTES"
  shows "tail u = head u"
    and "uart_window u = [buffer u ! head u, buffer u ! ((head u + 1) mod 4),
                          buffer u ! ((head u + 2) mod 4), buffer u ! ((head u + 3) mod 4)]"
proof -
  from wf n show t: "tail u = head u"
    by (simp add: uart_wf_def BUFFER_SIZE_BYTES_def PAYLOAD_SIZE_BYTES_def)
  from wf have h: "head u < 4"
    by (simp add: uart_wf_def BUFFER_SIZE_BYTES_def PAYLOAD_SIZE_BYTES_def)
  from n have n4: "elementsInBuffer u = 4"
    by (simp add: BUFFER_SIZE_BYTES_def PAYLOAD_SIZE_BYTES_def)
  show "uart_window u = [buffer u ! head u, buffer u ! ((head u + 1) mod 4),
                          buffer u ! ((head u + 2) mod 4), buffer u ! ((head u + 3) mod 4)]"
    using h by (simp add: uart_window_def t n4 upt_4 BUFFER_SIZE_BYTES_def PAYLOAD_SIZE_BYTES_def)
qed

lemma insertInBuffer_wf:
  assumes wf: "uart_wf u"
  shows "uart_wf (insertInBuffer c u)"
    and "prev_head (insertInBuffer c u) = (head (insertInBuffer c u) + 3) mod 4"
proof -
  from wf have f: "length (buffer u) = 4" "head u < 4" "tail u < 4" "elementsInBuffer u \<le> 4"
    "head u = (tail u + elementsInBuffer u) mod 4"
    by (simp_all add: uart_wf_def BUFFER_SIZE_BYTES_def PAYLOAD_SIZE_BYTES_def)
  from f(2) show "prev_head (insertInBuffer c u) = (head (insertInBuffer c u) + 3) mod 4"
    by (auto simp: insertInBuffer_def Let_def BUFFER_SIZE_BYTES_def PAYLOAD_SIZE_BYTES_def)
  have hd: "(if 4 \<le> head u + 1 then 0 else head u + 1) = (head u + 1) mod 4"
    using f(2) by presburger
  have tl: "(if 4 \<le> tail u + 1 then 0 else tail u + 1) = (tail u + 1) mod 4"
    using f(3) by presburger
  have "head (insertInBuffer c u) = (if 4 \<le> head u + 1 then 0 else head u + 1)"
    by (simp add: insertInBuffer_def Let_def BUFFER_SIZE_BYTES_def PAYLOAD_SIZE_BYTES_def)
  then have h': "head (insertInBuffer c u) = (head u + 1) mod 4" by (simp only: hd)
  have l': "length (buffer (insertInBuffer c u)) = 4"
    using f(1) by (simp add: insertInBuffer_def Let_def)
  show "uart_wf (insertInBuffer c u)"
  proof (cases "elementsInBuffer u = 4")
    case True
    with f(3,5) have ht: "head u = tail u" by simp
    from True have "tail (insertInBuffer c u) = (if 4 \<le> tail u + 1 then 0 else tail u + 1)"
      by (simp add: insertInBuffer_def Let_def BUFFER_SIZE_BYTES_def PAYLOAD_SIZE_BYTES_def)
    then have t': "tail (insertInBuffer c u) = (tail u + 1) mod 4" by (simp only: tl)
    from True have n': "elementsInBuffer (insertInBuffer c u) = 4"
      by (simp add: insertInBuffer_def Let_def BUFFER_SIZE_BYTES_def PAYLOAD_SIZE_BYTES_def)
    have "(head u + 1) mod 4 = ((tail u + 1) mod 4 + 4) mod 4"
      unfolding ht by presburger
    then show ?thesis
      unfolding uart_wf_def h' t' n' l' BUFFER_SIZE_BYTES_def PAYLOAD_SIZE_BYTES_def by simp
  next
    case False
    with f(4) have lt: "elementsInBuffer u < 4" by simp
    from lt have t': "tail (insertInBuffer c u) = tail u"
      and n': "elementsInBuffer (insertInBuffer c u) = elementsInBuffer u + 1"
      by (simp_all add: insertInBuffer_def Let_def BUFFER_SIZE_BYTES_def PAYLOAD_SIZE_BYTES_def)
    have "(head u + 1) mod 4 = (tail u + (elementsInBuffer u + 1)) mod 4"
      unfolding f(5) by presburger
    with lt f(3) show ?thesis
      unfolding uart_wf_def h' t' n' l' BUFFER_SIZE_BYTES_def PAYLOAD_SIZE_BYTES_def by simp
  qed
qed

lemma getBufferData_index:
  assumes "h < 4" and "c < 2"
  shows "(if BUFFER_SIZE_BYTES \<le> h + c + 1 then h + c + 1 - BUFFER_SIZE_BYTES else h + c + 1)
           = (h + c + 1) mod 4"
  unfolding BUFFER_SIZE_BYTES_def PAYLOAD_SIZE_BYTES_def using assms by presburger

lemma getBufferData_window:
  assumes h: "head u < 4"
  shows "getBufferData u =
           (if reserved_byte (buffer u ! ((head u + 1) mod 4)) then None
            else if reserved_byte (buffer u ! ((head u + 2) mod 4)) then None
            else Some [buffer u ! ((head u + 1) mod 4), buffer u ! ((head u + 2) mod 4)])"
proof -
  have i0: "(if BUFFER_SIZE_BYTES \<le> head u + 0 + 1 then head u + 0 + 1 - BUFFER_SIZE_BYTES
             else head u + 0 + 1) = (head u + 1) mod 4"
    using getBufferData_index [OF h, of 0] by simp
  have i1: "(if BUFFER_SIZE_BYTES \<le> head u + 1 + 1 then head u + 1 + 1 - BUFFER_SIZE_BYTES
             else head u + 1 + 1) = (head u + 2) mod 4"
    using getBufferData_index [OF h, of 1] by simp
  have l: "[0..<PAYLOAD_SIZE_BYTES] = [0, 1]"
    by (simp add: PAYLOAD_SIZE_BYTES_def upt_rec numeral_eq_Suc)
  show ?thesis
    unfolding getBufferData_def l getBufferData_loop.simps Let_def i0 i1
    by (simp add: reserved_byte_def)
qed


lemma uart_window_slide:
  assumes wf: "uart_wf u" and n: "elementsInBuffer u = BUFFER_SIZE_BYTES"
  shows "uart_window (insertInBuffer c u) = tl (uart_window u) @ [c]"
proof -
  from wf have h: "head u < 4" and l: "length (buffer u) = 4"
    by (simp_all add: uart_wf_def BUFFER_SIZE_BYTES_def PAYLOAD_SIZE_BYTES_def)
  from n have n4: "elementsInBuffer u = 4"
    by (simp add: BUFFER_SIZE_BYTES_def PAYLOAD_SIZE_BYTES_def)
  note wf' = insertInBuffer_wf(1) [OF wf, of c]
  have n': "elementsInBuffer (insertInBuffer c u) = BUFFER_SIZE_BYTES"
    using n4 by (simp add: insertInBuffer_def Let_def BUFFER_SIZE_BYTES_def PAYLOAD_SIZE_BYTES_def)
  have "head (insertInBuffer c u) = (if 4 \<le> head u + 1 then 0 else head u + 1)"
    by (simp add: insertInBuffer_def Let_def BUFFER_SIZE_BYTES_def PAYLOAD_SIZE_BYTES_def)
  also have "\<dots> = (head u + 1) mod 4" using h by presburger
  finally have h': "head (insertInBuffer c u) = (head u + 1) mod 4" .
  have b': "buffer (insertInBuffer c u) = (buffer u)[head u := c]"
    by (simp add: insertInBuffer_def Let_def)
  have m: "((head u + 1) mod 4 + 1) mod 4 = (head u + 2) mod 4"
    "((head u + 1) mod 4 + 2) mod 4 = (head u + 3) mod 4"
    "((head u + 1) mod 4 + 3) mod 4 = head u"
    "(head u + 1) mod 4 \<noteq> head u" "(head u + 2) mod 4 \<noteq> head u" "(head u + 3) mod 4 \<noteq> head u"
    using h by presburger+
  have nth: "(buffer u)[head u := c] ! ((head u + 1) mod 4) = buffer u ! ((head u + 1) mod 4)"
    "(buffer u)[head u := c] ! ((head u + 2) mod 4) = buffer u ! ((head u + 2) mod 4)"
    "(buffer u)[head u := c] ! ((head u + 3) mod 4) = buffer u ! ((head u + 3) mod 4)"
    "(buffer u)[head u := c] ! head u = c"
    using m(4-6) h l by (simp_all add: nth_list_update)
  show ?thesis
    unfolding uart_window_full(2) [OF wf' n'] uart_window_full(2) [OF wf n] h' b' m(1-3) nth
    by simp
qed

lemma frame_check:
  assumes wf: "uart_wf u" and ph: "prev_head u = (head u + 3) mod 4"
    and win: "uart_window u = [a, b, c, d]"
  shows "checkFraming startByte endByte (u, s) =
           (if a = startByte \<and> d = endByte then (True, u, s)
            else (False, flushBuffer u, emit Serial_flush s))"
    and "getBufferData u =
           (if reserved_byte b then None else if reserved_byte c then None else Some [b, c])"
proof -
  from wf have h: "head u < 4"
    by (simp add: uart_wf_def BUFFER_SIZE_BYTES_def PAYLOAD_SIZE_BYTES_def)
  have "length (uart_window u) = elementsInBuffer u" by (simp add: uart_window_def)
  with win have n4: "elementsInBuffer u = 4" by simp
  then have n: "elementsInBuffer u = BUFFER_SIZE_BYTES"
    by (simp add: BUFFER_SIZE_BYTES_def PAYLOAD_SIZE_BYTES_def)
  from uart_window_full [OF wf n] win
  have t: "tail u = head u" and e: "buffer u ! head u = a" "buffer u ! ((head u + 1) mod 4) = b"
    "buffer u ! ((head u + 2) mod 4) = c" "buffer u ! ((head u + 3) mod 4) = d"
    by simp_all
  show "checkFraming startByte endByte (u, s) =
           (if a = startByte \<and> d = endByte then (True, u, s)
            else (False, flushBuffer u, emit Serial_flush s))"
    by (simp add: checkFraming_def t ph e n)
  show "getBufferData u =
           (if reserved_byte b then None else if reserved_byte c then None else Some [b, c])"
    by (simp only: getBufferData_window [OF h] e)
qed


text \<open>
  Claim C9, as the code has it. When the byte \<open>c\<close> completes a window \<open>EA p0 p1 FB\<close> in the
  full buffer and one of the payload bytes is \<open>0xEA\<close>, \<open>0xFB\<close> or \<open>0xFF\<close>, the frame is rejected:
  the iteration changes neither the encoders nor the switches (no \<open>update_zyncoder\<close> or
  \<open>update_zynswitches\<close> call) and only prints the corrupt-block message. Nothing is flushed at
  that point: the buffer keeps its four bytes and the serial device is not touched. The flush
  of the buffer and of the serial device is done by \<open>checkFraming\<close> when the next byte \<open>c'\<close>
  arrives and the shifted window \<open>p0 p1 FB c'\<close> is not framed; when it is framed (\<open>p0 = 0xEA\<close>
  and \<open>c' = 0xFB\<close>) the new window is rejected in the same way, its payload holding \<open>0xFB\<close>.
\<close>
theorem corrupt_frame_rejected:
  assumes wf: "uart_wf u"
    and win: "uart_window (insertInBuffer c u) = [START_FRAME_VALUE, p0, p1, END_FRAME_VALUE]"
    and bad: "reserved_byte p0 \<or> reserved_byte p1"
  shows "uart_thread_step c beyond clock now (u, s)
           = Some (insertInBuffer c u, emit Printf_corrupt_uart s)
       \<and> elementsInBuffer (insertInBuffer c u) = BUFFER_SIZE_BYTES
       \<and> uart_thread_step c' beyond' clock' now' (insertInBuffer c u, emit Printf_corrupt_uart s)
           = (if p0 = START_FRAME_VALUE \<and> c' = END_FRAME_VALUE
              then Some (insertInBuffer c' (insertInBuffer c u),
                         emit Printf_corrupt_uart (emit Printf_corrupt_uart s))
              else Some (flushBuffer (insertInBuffer c' (insertInBuffer c u)),
                         emit Serial_flush (emit Printf_corrupt_uart s)))"
proof -
  let ?u1 = "insertInBuffer c u"
  note wf1 = insertInBuffer_wf [OF wf, of c]
  have "length (uart_window ?u1) = elementsInBuffer ?u1" by (simp add: uart_window_def)
  with win have n1: "elementsInBuffer ?u1 = BUFFER_SIZE_BYTES"
    by (simp add: BUFFER_SIZE_BYTES_def PAYLOAD_SIZE_BYTES_def)
  note c1 = frame_check [OF wf1 win]
  from bad have g1: "getBufferData ?u1 = None" by (auto simp: c1(2))
  have 1: "uart_thread_step c beyond clock now (u, s) = Some (?u1, emit Printf_corrupt_uart s)"
    by (simp add: uart_thread_step_def c1(1) g1)
  have r: "reserved_byte END_FRAME_VALUE" by (simp add: reserved_byte_def)
  have next_byte: "checkFraming START_FRAME_VALUE END_FRAME_VALUE (insertInBuffer x ?u1, t) =
             (if p0 = START_FRAME_VALUE \<and> x = END_FRAME_VALUE
              then (True, insertInBuffer x ?u1, t)
              else (False, flushBuffer (insertInBuffer x ?u1), emit Serial_flush t))"
    "getBufferData (insertInBuffer x ?u1) = None" for x t
  proof -
    note wf2 = insertInBuffer_wf [OF wf1(1), of x]
    have win2: "uart_window (insertInBuffer x ?u1) = [p0, p1, END_FRAME_VALUE, x]"
      by (simp add: uart_window_slide [OF wf1(1) n1] win)
    note c2 = frame_check [OF wf2 win2]
    show "checkFraming START_FRAME_VALUE END_FRAME_VALUE (insertInBuffer x ?u1, t) =
             (if p0 = START_FRAME_VALUE \<and> x = END_FRAME_VALUE
              then (True, insertInBuffer x ?u1, t)
              else (False, flushBuffer (insertInBuffer x ?u1), emit Serial_flush t))"
      by (rule c2(1))
    show "getBufferData (insertInBuffer x ?u1) = None" by (simp add: c2(2) r)
  qed
  have 2: "uart_thread_step c' beyond' clock' now' (?u1, emit Printf_corrupt_uart s)
           = (if p0 = START_FRAME_VALUE \<and> c' = END_FRAME_VALUE
              then Some (insertInBuffer c' ?u1,
                         emit Printf_corrupt_uart (emit Printf_corrupt_uart s))
              else Some (flushBuffer (insertInBuffer c' ?u1),
                         emit Serial_flush (emit Printf_corrupt_uart s)))"
    by (simp add: uart_thread_step_def next_byte)
  from 1 n1 2 show ?thesis by blast
qed

lemma partial_uart_facts:
  "uart_wf partial_uart" "insertInBuffer 0xFB partial_uart = corrupt_uart"
  "uart_window corrupt_uart = [START_FRAME_VALUE, 0xFF, 0x00, END_FRAME_VALUE]"
  by (simp_all add: uart_wf_def insertInBuffer_def uart_window_def partial_uart_def
        corrupt_uart_def BUFFER_SIZE_BYTES_def PAYLOAD_SIZE_BYTES_def START_FRAME_VALUE_def
        END_FRAME_VALUE_def upt_4 Let_def)

theorem corrupt_frame_rejected_witness:
  "uart_thread_step 0xFB (\<lambda>k. 0) (\<lambda>i. 0) 0 (partial_uart, init_zyncoder 4 8)
     = Some (corrupt_uart, emit Printf_corrupt_uart (init_zyncoder 4 8))
   \<and> uart_thread_step 0xEA (\<lambda>k. 0) (\<lambda>i. 0) 0
         (corrupt_uart, emit Printf_corrupt_uart (init_zyncoder 4 8))
       = Some (flushBuffer (insertInBuffer 0xEA corrupt_uart),
               emit Serial_flush (emit Printf_corrupt_uart (init_zyncoder 4 8)))"
proof -
  have w: "uart_window (insertInBuffer 0xFB partial_uart)
             = [START_FRAME_VALUE, 0xFF, 0x00, END_FRAME_VALUE]"
    by (simp only: partial_uart_facts)
  have b: "reserved_byte 0xFF \<or> reserved_byte 0x00" by (simp add: reserved_byte_def)
  have ne: "\<not> ((0xFF :: 8 word) = START_FRAME_VALUE \<and> (0xEA :: 8 word) = END_FRAME_VALUE)"
    by (simp add: START_FRAME_VALUE_def)
  from corrupt_frame_rejected [OF partial_uart_facts(1) w b,
      of "\<lambda>k. 0" "\<lambda>i. 0" 0 "init_zyncoder 4 8" "0xEA" "\<lambda>k. 0" "\<lambda>i. 0" 0] ne
  show ?thesis by (simp only: partial_uart_facts(2) if_False simp_thms)
qed

text \<open>
  Claim C9 as stated fails on the flush. The four bytes \<open>EA FF 00 FB\<close> arrive in an empty
  buffer: the frame is rejected with the corrupt-block message, but the buffer still holds the
  four bytes and the trace of effects holds no flush of the serial device.
\<close>
theorem corrupt_frame_counterexample:
  "uart_thread_run 0 [0xEA, 0xFF, 0x00, 0xFB] (\<lambda>k. 0) (\<lambda>k i. 0) (\<lambda>k. 0)
       (empty_uart, init_zyncoder 4 8)
     = Some (corrupt_uart, emit Printf_corrupt_uart (init_zyncoder 4 8))
   \<and> buffer corrupt_uart = [0xEA, 0xFF, 0x00, 0xFB]
   \<and> elementsInBuffer corrupt_uart = 4
   \<and> effects (emit Printf_corrupt_uart (init_zyncoder 4 8)) = [Printf_corrupt_uart]
   \<and> flushBuffer corrupt_uart = empty_uart
   \<and> corrupt_uart \<noteq> empty_uart"
  by (simp add: uart_thread_step_def checkFraming_def insertInBuffer_def flushBuffer_def
        getBufferData_def emit_def init_zyncoder_def empty_uart_def corrupt_uart_def
        BUFFER_SIZE_BYTES_def PAYLOAD_SIZE_BYTES_def START_FRAME_VALUE_def END_FRAME_VALUE_def
        Let_def upt_rec numeral_eq_Suc)

end
